theory Spec2Isabelle
  imports Main "HOL-Library.Word" "HOL-Library.Sublist" "HOL-Library.Multiset"
    "HOL-Library.Char_ord" "HOL-Library.List_Lexorder"
begin

section \<open>The PULSAR packaging script (scripts/package.py)\<close>

text \<open>
  The script walks a fixed set of paths under the repository root, adds up file sizes,
  writes a zip archive, hashes it and patches two JSON documents.  The model below
  follows the script function by function.  What the Python standard library does
  (parsing and printing JSON, SHA-256, encoding and reading a zip archive) and what the
  operating system answers are not code of the script: they are parameters of the
  definitions that call them.

  A Python \<open>str\<close> is modelled by its UTF-8 bytes (\<^typ>\<open>string\<close>): equality,
  concatenation, \<open>startswith\<close> and the code-point order agree with the byte-wise
  operations on the encoding.  Python integers are unbounded (\<^typ>\<open>int\<close>, \<^typ>\<open>nat\<close>
  for sizes).
\<close>

subsection \<open>Python values and exceptions\<close>

type_synonym byte = "8 word"
type_synonym bytes = "byte list"

text \<open>The values \<open>json.load\<close> produces.  A \<open>dict\<close> keeps its keys in insertion order.\<close>

datatype json =
    JNull
  | JBool bool
  | JInt int
  | JFloat "64 word"
  | JStr string
  | JList "json list"
  | JObj "(string \<times> json) list"

datatype py_error =
    KeyError
  | IndexError
  | TypeError
  | AttributeError
  | ValueError
  | FileNotFoundError
  | NotADirectoryError
  | IsADirectoryError
  | OSError
  | PermissionError
  | UnicodeEncodeError
  | BadZipFile

text \<open>\<open>d[k] = v\<close> on a dict: an existing key keeps its position, a new key goes last.\<close>

fun dict_set :: "(string \<times> 'v) list \<Rightarrow> string \<Rightarrow> 'v \<Rightarrow> (string \<times> 'v) list" where
  "dict_set [] k v = [(k, v)]"
| "dict_set ((k', v') # kvs) k v =
     (if k' = k then (k, v) # kvs else (k', v') # dict_set kvs k v)"

text \<open>\<open>x[key]\<close> for a string key.\<close>

fun subscript_str :: "json \<Rightarrow> string \<Rightarrow> py_error + json" where
  "subscript_str (JObj kvs) k =
     (case map_of kvs k of None \<Rightarrow> Inl KeyError | Some v \<Rightarrow> Inr v)"
| "subscript_str _ k = Inl TypeError"

subsection \<open>update_packages_json\<close>

definition download_url :: "string \<Rightarrow> string \<Rightarrow> string" where
  "download_url tag version =
     ''https://github.com/Alex-C-EE/PULSAR-KiCad-Lib/releases/download/'' @ tag @ ''/''
     @ ''PULSAR-KiCad-Lib-'' @ version @ ''.zip''"

definition new_version_entry :: "string \<Rightarrow> string \<Rightarrow> string \<Rightarrow> int \<Rightarrow> int \<Rightarrow> json" where
  "new_version_entry version tag sha256 download_size install_size =
     JObj [(''version'', JStr version),
           (''status'', JStr ''stable''),
           (''kicad_version'', JStr ''8.0''),
           (''download_url'', JStr (download_url tag version)),
           (''download_sha256'', JStr sha256),
           (''download_size'', JInt download_size),
           (''install_size'', JInt install_size)]"

text \<open>
  The loop \<open>for i, v in enumerate(versions): if v["version"] == version: ...; break\<close>
  over a list: the index of the first entry whose \<open>"version"\<close> equals the given string,
  or the error of the first entry before it that cannot be subscripted.  A value that is
  not a \<open>str\<close> never compares equal to one.
\<close>

fun find_version :: "json list \<Rightarrow> string \<Rightarrow> nat \<Rightarrow> py_error + nat option" where
  "find_version [] version i = Inr None"
| "find_version (v # vs) version i =
     (case subscript_str v ''version'' of
        Inl e \<Rightarrow> Inl e
      | Inr x \<Rightarrow> if x = JStr version then Inr (Some i) else find_version vs version (Suc i))"

text \<open>
  Lines 110--117: replace the first match in place, or append.  When \<open>versions\<close> is not
  a list: iterating a dict or a str yields strs, and \<open>v["version"]\<close> on a str is a
  TypeError; an empty dict or str skips the loop and has no \<open>append\<close>; anything else
  cannot be enumerated.
\<close>

fun upsert_version :: "json \<Rightarrow> string \<Rightarrow> json \<Rightarrow> py_error + json list" where
  "upsert_version (JList vs) version entry =
     (case find_version vs version 0 of
        Inl e \<Rightarrow> Inl e
      | Inr (Some i) \<Rightarrow> Inr (vs[i := entry])
      | Inr None \<Rightarrow> Inr (vs @ [entry]))"
| "upsert_version (JObj kvs) version entry =
     (if kvs = [] then Inl AttributeError else Inl TypeError)"
| "upsert_version (JStr s) version entry =
     (if s = [] then Inl AttributeError else Inl TypeError)"
| "upsert_version _ version entry = Inl TypeError"

text \<open>
  Lines 107--118 for the package \<open>pkg = data["packages"][0]\<close>: \<open>pkg.get\<close> exists on a
  dict only.  The entry list found under \<open>"versions"\<close> is updated in place and stored
  back under the same key.
\<close>

fun update_pkg :: "json \<Rightarrow> string \<Rightarrow> json \<Rightarrow> py_error + json" where
  "update_pkg (JObj pkvs) version entry =
     (case upsert_version
             (case map_of pkvs ''versions'' of None \<Rightarrow> JList [] | Some vs \<Rightarrow> vs)
             version entry of
        Inl e \<Rightarrow> Inl e
      | Inr vs' \<Rightarrow> Inr (JObj (dict_set pkvs ''versions'' (JList vs'))))"
| "update_pkg _ version entry = Inl AttributeError"

text \<open>
  \<open>data["packages"][0]\<close>, then the update of that package inside the document.
  \<open>x[0]\<close> is an IndexError on an empty list or str, a KeyError on a dict (its keys are
  strs), the first character of a non-empty str (which has no \<open>get\<close>), and a TypeError on
  the other values.
\<close>

fun update_first_package :: "json \<Rightarrow> string \<Rightarrow> json \<Rightarrow> py_error + json" where
  "update_first_package (JList []) version entry = Inl IndexError"
| "update_first_package (JList (pkg # rest)) version entry =
     (case update_pkg pkg version entry of
        Inl e \<Rightarrow> Inl e
      | Inr pkg' \<Rightarrow> Inr (JList (pkg' # rest)))"
| "update_first_package (JObj kvs) version entry = Inl KeyError"
| "update_first_package (JStr s) version entry =
     (if s = [] then Inl IndexError else Inl AttributeError)"
| "update_first_package _ version entry = Inl TypeError"

text \<open>Lines 91--118: the document after the update, or the exception raised.\<close>

fun update_packages_data ::
  "json \<Rightarrow> string \<Rightarrow> string \<Rightarrow> string \<Rightarrow> int \<Rightarrow> int \<Rightarrow> py_error + json" where
  "update_packages_data (JObj dkvs) version tag sha256 download_size install_size =
     (case map_of dkvs ''packages'' of
        None \<Rightarrow> Inl KeyError
      | Some pkgs \<Rightarrow>
          (case update_first_package pkgs version
                  (new_version_entry version tag sha256 download_size install_size) of
             Inl e \<Rightarrow> Inl e
           | Inr pkgs' \<Rightarrow> Inr (JObj (dict_set dkvs ''packages'' pkgs'))))"
| "update_packages_data _ version tag sha256 download_size install_size = Inl TypeError"

subsection \<open>update_metadata_json\<close>

text \<open>Lines 132--138: \<open>data["versions"] = [...]\<close>; item assignment with a str key
  works on a dict only.\<close>

definition metadata_version_entry :: "string \<Rightarrow> json" where
  "metadata_version_entry version =
     JObj [(''version'', JStr version),
           (''status'', JStr ''stable''),
           (''kicad_version'', JStr ''8.0'')]"

fun update_metadata_data :: "json \<Rightarrow> string \<Rightarrow> py_error + json" where
  "update_metadata_data (JObj kvs) version =
     Inr (JObj (dict_set kvs ''versions'' (JList [metadata_version_entry version])))"
| "update_metadata_data _ version = Inl TypeError"

subsection \<open>The file system\<close>

text \<open>
  A tree of directories, regular files and other nodes (sockets, devices, dangling links).
  It is the file system as \<open>stat\<close> and \<open>open\<close> see it, which follow symbolic links:
  where an entry is a link, the tree holds what the link resolves to, and the platform
  (below) tells that the entry is a link.  A regular file is its bytes; what else \<open>stat\<close>
  reports of it (time, mode) is given by the platform.  The order of a directory's entries
  in the tree carries no meaning: the order in which the operating system enumerates them
  is given by the platform too.  A path is the list of its components below the root of
  the file system.
\<close>

type_synonym path = "string list"

datatype node = File bytes | Dir "(string \<times> node) list" | Special

fun resolve :: "node \<Rightarrow> path \<Rightarrow> py_error + node" where
  "resolve n [] = Inr n"
| "resolve (Dir es) (c # p) =
     (case map_of es c of None \<Rightarrow> Inl FileNotFoundError | Some ch \<Rightarrow> resolve ch p)"
| "resolve _ (c # p) = Inl NotADirectoryError"

text \<open>Opening a file for reading and reading all of it.\<close>

definition read_bytes :: "node \<Rightarrow> path \<Rightarrow> py_error + bytes" where
  "read_bytes fs p =
     (case resolve fs p of
        Inl e \<Rightarrow> Inl e
      | Inr (File bs) \<Rightarrow> Inr bs
      | Inr (Dir es) \<Rightarrow> Inl IsADirectoryError
      | Inr Special \<Rightarrow> Inl OSError)"

text \<open>\<open>open(p, "w")\<close>, writing and closing: the file is truncated or created.\<close>

fun write_bytes :: "node \<Rightarrow> path \<Rightarrow> bytes \<Rightarrow> py_error + node" where
  "write_bytes (File old) [] bs = Inr (File bs)"
| "write_bytes (Dir es) [] bs = Inl IsADirectoryError"
| "write_bytes Special [] bs = Inl OSError"
| "write_bytes (Dir es) (c # p) bs =
     (case map_of es c of
        None \<Rightarrow> if p = [] then Inr (Dir (es @ [(c, File bs)])) else Inl FileNotFoundError
      | Some ch \<Rightarrow>
          (case write_bytes ch p bs of
             Inl e \<Rightarrow> Inl e
           | Inr ch' \<Rightarrow> Inr (Dir (dict_set es c ch'))))"
| "write_bytes _ (c # p) bs = Inl NotADirectoryError"

subsection \<open>The platform\<close>

text \<open>
  What the operating system and the libraries add to the tree.  None of it is code of
  the script, so the functions below take it as a parameter:
  \<^item> \<open>stat_error p\<close>: the \<open>OSError\<close> that \<open>os.stat\<close> raises at \<open>p\<close> and that pathlib
    passes on (a name that is too long, a search permission that is missing, an I/O
    error); pathlib itself turns a missing path, a non-directory on the way and a loop
    of links into \<open>False\<close>;
  \<^item> \<open>scandir_error p\<close>: the \<open>OSError\<close> that \<open>os.scandir\<close> raises for the directory at
    \<open>p\<close>;
  \<^item> \<open>is_symlink p\<close>: the entry at \<open>p\<close> is a symbolic link;
  \<^item> \<open>scan_rank p name\<close>: the position at which \<open>os.scandir\<close> of the directory at \<open>p\<close>
    yields \<open>name\<close>;
  \<^item> \<open>st_mtime p\<close>, \<open>st_mode p\<close>: the time and mode that \<open>os.stat\<close> reports at \<open>p\<close>;
  \<^item> \<open>zip_error ms p m\<close>: the exception that ends \<open>ZipFile.write\<close> of the file at \<open>p\<close>
    as the member \<open>m\<close>, after the members \<open>ms\<close>: a ValueError for a time before 1980,
    a UnicodeEncodeError for a name that cannot be encoded, the \<open>OSError\<close> of opening
    or reading the file or of writing the archive;
  \<^item> \<open>zip_self ms\<close>: the bytes that are read from the archive's own file, when it is
    packed into itself after the members \<open>ms\<close> (what has reached the file by then);
  \<^item> \<open>zip_encode ms\<close>: the bytes that the archive file holds once the archive with
    the members \<open>ms\<close> has been closed (deflate, level 9);
  \<^item> \<open>zip_close_error ms\<close>: the \<open>OSError\<close> that closing that archive raises (a full
    disk).

  The tree has no sharing: a file that two paths reach (a hard link, two links to one
  target) is two files with the same bytes.
\<close>

record zmember =
  arcname :: string
  zm_mtime :: int
  zm_mode :: nat
  zm_data :: bytes

record platform =
  stat_error :: "path \<Rightarrow> py_error option"
  scandir_error :: "path \<Rightarrow> py_error option"
  is_symlink :: "path \<Rightarrow> bool"
  scan_rank :: "path \<Rightarrow> string \<Rightarrow> nat"
  st_mtime :: "path \<Rightarrow> int"
  st_mode :: "path \<Rightarrow> nat"
  zip_error :: "zmember list \<Rightarrow> path \<Rightarrow> zmember \<Rightarrow> py_error option"
  zip_self :: "zmember list \<Rightarrow> bytes"
  zip_encode :: "zmember list \<Rightarrow> bytes"
  zip_close_error :: "zmember list \<Rightarrow> py_error option"

text \<open>What the tree holds at a path.\<close>

definition file_at :: "node \<Rightarrow> path \<Rightarrow> bool" where
  "file_at t p = (case resolve t p of Inr (File bs) \<Rightarrow> True | _ \<Rightarrow> False)"

definition dir_at :: "node \<Rightarrow> path \<Rightarrow> bool" where
  "dir_at t p = (case resolve t p of Inr (Dir es) \<Rightarrow> True | _ \<Rightarrow> False)"

text \<open>\<open>p.is_file()\<close> and \<open>p.is_dir()\<close>: the answer of \<open>stat\<close>, or the error it raises.\<close>

definition is_file :: "platform \<Rightarrow> node \<Rightarrow> path \<Rightarrow> py_error + bool" where
  "is_file os t p = (case stat_error os p of Some e \<Rightarrow> Inl e | None \<Rightarrow> Inr (file_at t p))"

definition is_dir :: "platform \<Rightarrow> node \<Rightarrow> path \<Rightarrow> py_error + bool" where
  "is_dir os t p = (case stat_error os p of Some e \<Rightarrow> Inl e | None \<Rightarrow> Inr (dir_at t p))"

text \<open>\<open>p.stat().st_size\<close>.  The size reported for a directory or a special node depends
  on the file system; the script asks for it only after \<open>is_file\<close>.\<close>

definition st_size :: "platform \<Rightarrow> node \<Rightarrow> path \<Rightarrow> py_error + nat" where
  "st_size os t p =
     (case stat_error os p of
        Some e \<Rightarrow> Inl e
      | None \<Rightarrow>
          (case resolve t p of
             Inl e \<Rightarrow> Inl e
           | Inr (File bs) \<Rightarrow> Inr (length bs)
           | Inr _ \<Rightarrow> Inr 0))"

text \<open>
  A generator that may raise: the paths it yields, and the exception that ends it, if
  one does.  One walk after another; all the walks of a list.
\<close>

type_synonym walk = "path list \<times> py_error option"

fun walk_then :: "walk \<Rightarrow> walk \<Rightarrow> walk" where
  "walk_then (xs, None) (ys, e) = (xs @ ys, e)"
| "walk_then (xs, Some e) w = (xs, Some e)"

definition walk_concat :: "walk list \<Rightarrow> walk" where
  "walk_concat ws = foldr walk_then ws ([], None)"

text \<open>
  \<open>d.rglob("*")\<close> for the directory node at \<open>d\<close> (pathlib of CPython 3.11): the entries
  of the directory in the order of enumeration, then the same for each entry that is a
  directory and not a link.  Files, links and special nodes are yielded as well.  A
  directory whose listing is refused (PermissionError) is passed over in silence; any
  other error of \<open>scandir\<close> ends the walk.  pathlib drops a path that it has yielded
  before; no path comes twice when no directory lists a name twice, as on a real file
  system.
\<close>

fun rglob_star :: "platform \<Rightarrow> path \<Rightarrow> node \<Rightarrow> walk" where
  "rglob_star os d (Dir es) =
     (case scandir_error os d of
        Some e \<Rightarrow> ([], if e = PermissionError then None else Some e)
      | None \<Rightarrow>
          (let entries = sort_key (\<lambda>e. scan_rank os d (fst e)) es in
           walk_then (map (\<lambda>e. d @ [fst e]) entries, None)
             (walk_concat
                (map (\<lambda>e. if is_symlink os (d @ [fst e]) then ([], None)
                          else rglob_star os (d @ [fst e]) (snd e))
                     entries))))"
| "rglob_star os d n = ([], None)"

text \<open>\<open>rglob\<close> starts with \<open>is_dir\<close> on the path itself and yields nothing when that
  is false.\<close>

definition rglob :: "platform \<Rightarrow> node \<Rightarrow> path \<Rightarrow> walk" where
  "rglob os t d =
     (case is_dir os t d of
        Inl e \<Rightarrow> ([], Some e)
      | Inr False \<Rightarrow> ([], None)
      | Inr True \<Rightarrow>
          (case resolve t d of Inr n \<Rightarrow> rglob_star os d n | Inl e \<Rightarrow> ([], None)))"

subsection \<open>compute_install_size\<close>

text \<open>Lines 30--32 for the paths \<open>rglob\<close> yields, with the running total \<open>tot\<close>.\<close>

fun add_file_sizes :: "platform \<Rightarrow> node \<Rightarrow> path list \<Rightarrow> nat \<Rightarrow> py_error + nat" where
  "add_file_sizes os t [] tot = Inr tot"
| "add_file_sizes os t (f # rest) tot =
     (case is_file os t f of
        Inl e \<Rightarrow> Inl e
      | Inr True \<Rightarrow>
          (case st_size os t f of
             Inl e \<Rightarrow> Inl e
           | Inr n \<Rightarrow> add_file_sizes os t rest (tot + n))
      | Inr False \<Rightarrow> add_file_sizes os t rest tot)"

text \<open>
  Lines 28--34, the outer loop.  The body of the inner loop runs for each path as
  \<open>rglob\<close> yields it, so an exception of the body comes before the one that ends the
  walk.
\<close>

fun add_install_sizes :: "platform \<Rightarrow> node \<Rightarrow> path list \<Rightarrow> nat \<Rightarrow> py_error + nat" where
  "add_install_sizes os t [] tot = Inr tot"
| "add_install_sizes os t (d # directories) tot =
     (case is_dir os t d of
        Inl e \<Rightarrow> Inl e
      | Inr True \<Rightarrow>
          (case add_file_sizes os t (fst (rglob os t d)) tot of
             Inl e \<Rightarrow> Inl e
           | Inr tot' \<Rightarrow>
               (case snd (rglob os t d) of
                  Some e \<Rightarrow> Inl e
                | None \<Rightarrow> add_install_sizes os t directories tot'))
      | Inr False \<Rightarrow>
          (case is_file os t d of
             Inl e \<Rightarrow> Inl e
           | Inr True \<Rightarrow>
               (case st_size os t d of
                  Inl e \<Rightarrow> Inl e
                | Inr n \<Rightarrow> add_install_sizes os t directories (tot + n))
           | Inr False \<Rightarrow> add_install_sizes os t directories tot))"

definition compute_install_size :: "platform \<Rightarrow> node \<Rightarrow> path list \<Rightarrow> py_error + nat" where
  "compute_install_size os t directories = add_install_sizes os t directories 0"

subsection \<open>create_zip_archive\<close>

text \<open>
  The open \<open>ZipFile\<close> is the list of the members written so far.  zipfile normalises
  the archive name with \<open>os.path.normpath\<close>, which leaves a relative path made of
  directory entries as it is.
\<close>

fun as_posix :: "path \<Rightarrow> string" where
  "as_posix [] = ''.''"
| "as_posix [c] = c"
| "as_posix (c # p) = c @ ''/'' @ as_posix p"

definition relative_to :: "path \<Rightarrow> path \<Rightarrow> py_error + path" where
  "relative_to p root =
     (if prefix root p then Inr (drop (length root) p) else Inl ValueError)"

text \<open>
  \<open>zf.write(p, name)\<close> into the archive at \<open>out\<close>: \<open>ZipInfo.from_file\<close> takes the time
  and mode from \<open>stat\<close>; a directory becomes a member without content whose name ends
  in a slash; the bytes of a regular file are read from the file, which is the archive
  itself when \<open>p\<close> is \<open>out\<close>.
\<close>

definition zip_add ::
  "platform \<Rightarrow> zmember list \<Rightarrow> path \<Rightarrow> zmember \<Rightarrow> py_error + zmember list" where
  "zip_add os zf p m = (case zip_error os zf p m of Some e \<Rightarrow> Inl e | None \<Rightarrow> Inr (zf @ [m]))"

definition zf_write ::
  "platform \<Rightarrow> node \<Rightarrow> path \<Rightarrow> zmember list \<Rightarrow> path \<Rightarrow> string \<Rightarrow>
   py_error + zmember list" where
  "zf_write os t out zf p name =
     (case stat_error os p of
        Some e \<Rightarrow> Inl e
      | None \<Rightarrow>
          (case resolve t p of
             Inl e \<Rightarrow> Inl e
           | Inr (Dir es) \<Rightarrow>
               zip_add os zf p
                 \<lparr>arcname = name @ ''/'', zm_mtime = st_mtime os p, zm_mode = st_mode os p,
                  zm_data = []\<rparr>
           | Inr (File bs) \<Rightarrow>
               zip_add os zf p
                 \<lparr>arcname = name, zm_mtime = st_mtime os p, zm_mode = st_mode os p,
                  zm_data = (if p = out then zip_self os zf else bs)\<rparr>
           | Inr Special \<Rightarrow> Inl OSError))"

text \<open>
  Lines 62--65 for the sorted listing of one directory: the members written, and the
  exception that ended the loop, if one did.
\<close>

fun add_dir_files ::
  "platform \<Rightarrow> node \<Rightarrow> path \<Rightarrow> path \<Rightarrow> path list \<Rightarrow> zmember list \<Rightarrow>
   zmember list \<times> py_error option" where
  "add_dir_files os t out root [] zf = (zf, None)"
| "add_dir_files os t out root (file_path # rest) zf =
     (case is_file os t file_path of
        Inl e \<Rightarrow> (zf, Some e)
      | Inr False \<Rightarrow> add_dir_files os t out root rest zf
      | Inr True \<Rightarrow>
          (case relative_to file_path root of
             Inl e \<Rightarrow> (zf, Some e)
           | Inr rel \<Rightarrow>
               (case zf_write os t out zf file_path (as_posix rel) of
                  Inl e \<Rightarrow> (zf, Some e)
                | Inr zf' \<Rightarrow> add_dir_files os t out root rest zf')))"

text \<open>
  Lines 57--65.  \<open>sorted\<close> runs \<open>rglob\<close> to its end before anything of the directory is
  added, and compares paths component by component, each component as a string.
\<close>

fun add_items ::
  "platform \<Rightarrow> node \<Rightarrow> path \<Rightarrow> path \<Rightarrow> path list \<Rightarrow> zmember list \<Rightarrow>
   zmember list \<times> py_error option" where
  "add_items os t out root [] zf = (zf, None)"
| "add_items os t out root (item # items) zf =
     (case is_file os t item of
        Inl e \<Rightarrow> (zf, Some e)
      | Inr True \<Rightarrow>
          (case relative_to item root of
             Inl e \<Rightarrow> (zf, Some e)
           | Inr rel \<Rightarrow>
               (case zf_write os t out zf item (as_posix rel) of
                  Inl e \<Rightarrow> (zf, Some e)
                | Inr zf' \<Rightarrow> add_items os t out root items zf'))
      | Inr False \<Rightarrow>
          (case is_dir os t item of
             Inl e \<Rightarrow> (zf, Some e)
           | Inr True \<Rightarrow>
               (case snd (rglob os t item) of
                  Some e \<Rightarrow> (zf, Some e)
                | None \<Rightarrow>
                    (case add_dir_files os t out root (sort (fst (rglob os t item))) zf of
                       (zf', Some e) \<Rightarrow> (zf', Some e)
                     | (zf', None) \<Rightarrow> add_items os t out root items zf'))
           | Inr False \<Rightarrow> add_items os t out root items zf))"

definition item_names :: "string list" where
  "item_names = [''metadata.json'', ''resources'', ''symbols'', ''footprints'', ''3dmodels'']"

definition items_to_include :: "path \<Rightarrow> path list" where
  "items_to_include root = map (\<lambda>name. root @ [name]) item_names"

text \<open>
  \<open>ZipFile(output_path, "w", ...)\<close> creates or truncates the output file before the loop
  runs, so the loop sees it; leaving the \<open>with\<close> block, also by an exception, closes the
  archive, and the file then holds the members written so far.  An exception of the
  closing replaces the one that ended the loop.  The result is the path returned or the
  exception raised, with the file system the call leaves.
\<close>

definition create_zip_archive ::
  "platform \<Rightarrow> node \<Rightarrow> path \<Rightarrow> path \<Rightarrow> (py_error + path) \<times> node" where
  "create_zip_archive os t output_path root =
     (case write_bytes t output_path [] of
        Inl e \<Rightarrow> (Inl e, t)
      | Inr t1 \<Rightarrow>
          (case add_items os t1 output_path root (items_to_include root) [] of
             (zf, err) \<Rightarrow>
               (case write_bytes t1 output_path (zip_encode os zf) of
                  Inl e \<Rightarrow> (Inl e, t1)
                | Inr t2 \<Rightarrow>
                    (case zip_close_error os zf of
                       Some e \<Rightarrow> (Inl e, t2)
                     | None \<Rightarrow>
                         (case err of None \<Rightarrow> (Inr output_path, t2) | Some e \<Rightarrow> (Inl e, t2))))))"

subsection \<open>compute_sha256\<close>

text \<open>
  A hashlib object is the bytes fed to it so far: \<open>update\<close> appends, and the digest is
  SHA-256 of the whole (the parameter \<open>digest\<close>).  An open file is its unread remainder.
\<close>

type_synonym hasher = bytes

definition sha256_new :: hasher where
  "sha256_new = []"

definition sha256_update :: "hasher \<Rightarrow> bytes \<Rightarrow> hasher" where
  "sha256_update h chunk = h @ chunk"

definition hex_digit :: "nat \<Rightarrow> char" where
  "hex_digit n = ''0123456789abcdef'' ! n"

definition hex_byte :: "byte \<Rightarrow> string" where
  "hex_byte b = [hex_digit (unat b div 16), hex_digit (unat b mod 16)]"

definition hexdigest :: "(bytes \<Rightarrow> bytes) \<Rightarrow> hasher \<Rightarrow> string" where
  "hexdigest digest h = concat (map hex_byte (digest h))"

text \<open>\<open>for chunk in iter(lambda: f.read(8192), b""): sha256.update(chunk)\<close>\<close>

function hash_chunks :: "bytes \<Rightarrow> hasher \<Rightarrow> hasher" where
  "hash_chunks unread h =
     (let chunk = take 8192 unread in
      if chunk = [] then h else hash_chunks (drop 8192 unread) (sha256_update h chunk))"
  by pat_completeness auto
termination
  by (relation "measure (\<lambda>(unread, h). length unread)") auto

declare hash_chunks.simps [simp del]

definition compute_sha256 :: "(bytes \<Rightarrow> bytes) \<Rightarrow> node \<Rightarrow> path \<Rightarrow> py_error + string" where
  "compute_sha256 digest fs file_path =
     (case read_bytes fs file_path of
        Inl e \<Rightarrow> Inl e
      | Inr content \<Rightarrow> Inr (hexdigest digest (hash_chunks content sha256_new)))"

subsection \<open>Reading and writing the JSON documents\<close>

text \<open>
  What a run changes: the file system, and the lines printed.  A function that can raise
  returns the exception or its result, together with the state it leaves.

  \<open>loads\<close> stands for \<open>json.load\<close> on the bytes of a file (\<open>None\<close> when they are not
  UTF-8 JSON text, a ValueError in Python), \<open>dumps\<close> for \<open>json.dump(..., indent=4)\<close>.
\<close>

record world =
  fs :: node
  stdout :: "string list"

definition print :: "world \<Rightarrow> string \<Rightarrow> world" where
  "print w line = w\<lparr>stdout := stdout w @ [line]\<rparr>"

definition path_str :: "path \<Rightarrow> string" where
  "path_str p = (if p = [] then ''/'' else concat (map ((@) ''/'') p))"

definition newline :: byte where
  "newline = 0x0A"

definition update_packages_json ::
  "(bytes \<Rightarrow> json option) \<Rightarrow> (json \<Rightarrow> bytes) \<Rightarrow> world \<Rightarrow> path \<Rightarrow>
   string \<Rightarrow> string \<Rightarrow> string \<Rightarrow> int \<Rightarrow> int \<Rightarrow> (py_error + unit) \<times> world" where
  "update_packages_json loads dumps w packages_json_path version tag sha256
       download_size install_size =
     (case read_bytes (fs w) packages_json_path of
        Inl e \<Rightarrow> (Inl e, w)
      | Inr raw \<Rightarrow>
          (case loads raw of
             None \<Rightarrow> (Inl ValueError, w)
           | Some data \<Rightarrow>
               (case update_packages_data data version tag sha256 download_size install_size of
                  Inl e \<Rightarrow> (Inl e, w)
                | Inr data' \<Rightarrow>
                    (case write_bytes (fs w) packages_json_path (dumps data' @ [newline]) of
                       Inl e \<Rightarrow> (Inl e, w)
                     | Inr fs' \<Rightarrow>
                         (Inr (), print (w\<lparr>fs := fs'\<rparr>)
                                    (''Updated '' @ path_str packages_json_path))))))"

definition update_metadata_json ::
  "(bytes \<Rightarrow> json option) \<Rightarrow> (json \<Rightarrow> bytes) \<Rightarrow> world \<Rightarrow> path \<Rightarrow> string \<Rightarrow>
   (py_error + unit) \<times> world" where
  "update_metadata_json loads dumps w metadata_path version =
     (case read_bytes (fs w) metadata_path of
        Inl e \<Rightarrow> (Inl e, w)
      | Inr raw \<Rightarrow>
          (case loads raw of
             None \<Rightarrow> (Inl ValueError, w)
           | Some data \<Rightarrow>
               (case update_metadata_data data version of
                  Inl e \<Rightarrow> (Inl e, w)
                | Inr data' \<Rightarrow>
                    (case write_bytes (fs w) metadata_path (dumps data' @ [newline]) of
                       Inl e \<Rightarrow> (Inl e, w)
                     | Inr fs' \<Rightarrow>
                         (Inr (), print (w\<lparr>fs := fs'\<rparr>)
                                    (''Updated '' @ path_str metadata_path))))))"

subsection \<open>main: validating the archive\<close>

text \<open>The decimal digits of a number, as an f-string prints it.\<close>

fun str_nat :: "nat \<Rightarrow> string" where
  "str_nat n =
     (if n < 10 then [''0123456789'' ! n]
      else str_nat (n div 10) @ [''0123456789'' ! (n mod 10)])"

definition required :: "string list" where
  "required = [''metadata.json'']"

definition required_prefixes :: "string list" where
  "required_prefixes = [''symbols/'', ''footprints/'']"

text \<open>Lines 193--204: the lines printed for the member names of the archive.\<close>

definition validation_lines :: "string list \<Rightarrow> string list" where
  "validation_lines names =
     map (\<lambda>req. ''  WARNING: Missing required file: '' @ req)
         (filter (\<lambda>req. req \<notin> set names) required)
     @ map (\<lambda>p. ''  WARNING: Missing required directory: '' @ p)
         (filter (\<lambda>p. \<not> list_ex (prefix p) names) required_prefixes)
     @ [''  Archive contains '' @ str_nat (length names) @ '' files'']
     @ [if list_all (\<lambda>req. req \<in> set names) required
           \<and> list_all (\<lambda>p. list_ex (prefix p) names) required_prefixes
        then ''  Structure looks good!''
        else ''  WARNING: Archive may have issues'']"

text \<open>
  Lines 187--206, the rest of \<open>main\<close> once the manifest is updated: \<open>output_zip\<close> and
  \<open>tag\<close> are the values \<open>main\<close> computed before, \<open>namelist\<close> stands for reading the
  directory of a zip file (\<open>None\<close> when the bytes are not a zip archive).  Its outcome is
  the outcome of \<open>main\<close>.
\<close>

definition main_validate ::
  "(bytes \<Rightarrow> string list option) \<Rightarrow> world \<Rightarrow> path \<Rightarrow> string \<Rightarrow> (py_error + unit) \<times> world" where
  "main_validate namelist w output_zip tag =
     (let w1 = print w (CHR 0x0A # ''Validating ZIP structure...'') in
      case read_bytes (fs w1) output_zip of
        Inl e \<Rightarrow> (Inl e, w1)
      | Inr content \<Rightarrow>
          (case namelist content of
             None \<Rightarrow> (Inl BadZipFile, w1)
           | Some names \<Rightarrow>
               (Inr (),
                print (foldl print w1 (validation_lines names))
                  (CHR 0x0A # ''Done! Upload '' @ (if output_zip = [] then [] else last output_zip)
                     @ '' as a GitHub Release asset for tag '' @ tag))))"

section \<open>Notions used to state the properties\<close>

text \<open>The versions list of the first package of a manifest document, when there is one.\<close>

definition versions_of :: "json \<Rightarrow> json list option" where
  "versions_of doc =
     (case doc of
        JObj dkvs \<Rightarrow>
          (case map_of dkvs ''packages'' of
             Some (JList (JObj pkvs # rest)) \<Rightarrow>
               (case map_of pkvs ''versions'' of Some (JList vs) \<Rightarrow> Some vs | _ \<Rightarrow> None)
           | _ \<Rightarrow> None)
      | _ \<Rightarrow> None)"

text \<open>The value under \<open>"version"\<close> of a version record.\<close>

definition entry_version :: "json \<Rightarrow> json option" where
  "entry_version v = (case v of JObj kvs \<Rightarrow> map_of kvs ''version'' | _ \<Rightarrow> None)"

text \<open>Hashing the whole content with one call: \<open>hashlib.sha256(content).hexdigest()\<close>.\<close>

definition one_shot_sha256 :: "(bytes \<Rightarrow> bytes) \<Rightarrow> bytes \<Rightarrow> string" where
  "one_shot_sha256 digest content = hexdigest digest (sha256_update sha256_new content)"

text \<open>A directory does not list a name twice.\<close>

fun wf_node :: "node \<Rightarrow> bool" where
  "wf_node (Dir es) = (distinct (map fst es) \<and> (\<forall>e\<in>set es. wf_node (snd e)))"
| "wf_node _ = True"

text \<open>
  Everything below a node, as paths relative to it: the entries of a directory, then what
  lies below each of them.
\<close>

fun tree_paths :: "node \<Rightarrow> path list" where
  "tree_paths (Dir es) =
     map (\<lambda>e. [fst e]) es @ concat (map (\<lambda>e. map ((#) (fst e)) (tree_paths (snd e))) es)"
| "tree_paths _ = []"

text \<open>
  The paths that \<open>rglob\<close> yields for the directory node at \<open>d\<close>, without the order of
  enumeration; and: no listing on the way ends the walk with an exception.
\<close>

fun walk_paths :: "platform \<Rightarrow> path \<Rightarrow> node \<Rightarrow> path list" where
  "walk_paths os d (Dir es) =
     (case scandir_error os d of
        Some e \<Rightarrow> []
      | None \<Rightarrow>
          map (\<lambda>e. d @ [fst e]) es
          @ concat (map (\<lambda>e. if is_symlink os (d @ [fst e]) then []
                              else walk_paths os (d @ [fst e]) (snd e)) es))"
| "walk_paths os d n = []"

fun walk_ok :: "platform \<Rightarrow> path \<Rightarrow> node \<Rightarrow> bool" where
  "walk_ok os d (Dir es) =
     (case scandir_error os d of
        Some e \<Rightarrow> e = PermissionError
      | None \<Rightarrow> (\<forall>e\<in>set es. is_symlink os (d @ [fst e]) \<or> walk_ok os (d @ [fst e]) (snd e)))"
| "walk_ok os d n = True"

text \<open>The regular files reachable from a list of paths, and the size of a file.\<close>

definition reachable_files :: "node \<Rightarrow> path list \<Rightarrow> path set" where
  "reachable_files t ds = {p. (\<exists>d\<in>set ds. prefix d p) \<and> file_at t p}"

definition file_size :: "node \<Rightarrow> path \<Rightarrow> nat" where
  "file_size t p = (case resolve t p of Inr (File bs) \<Rightarrow> length bs | _ \<Rightarrow> 0)"

text \<open>No path of the list is another one of the list, or lies below it.\<close>

fun independent :: "path list \<Rightarrow> bool" where
  "independent [] = True"
| "independent (d # ds) = ((\<forall>d'\<in>set ds. \<not> prefix d d' \<and> \<not> prefix d' d) \<and> independent ds)"

text \<open>\<open>p.exists()\<close>, on a platform without errors.\<close>

definition path_exists :: "node \<Rightarrow> path \<Rightarrow> bool" where
  "path_exists t p = (case resolve t p of Inr n \<Rightarrow> True | Inl e \<Rightarrow> False)"

text \<open>
  At \<open>d\<close> and below, \<open>stat\<close> and \<open>scandir\<close> raise nothing that pathlib passes on, and
  nothing below \<open>d\<close> is a symbolic link (\<open>d\<close> itself may be one).
\<close>

definition calm_below :: "platform \<Rightarrow> path \<Rightarrow> bool" where
  "calm_below os d =
     (\<forall>p. prefix d p \<longrightarrow>
        stat_error os p = None \<and> scandir_error os p = None \<and> (p \<noteq> d \<longrightarrow> \<not> is_symlink os p))"

text \<open>What one input path adds to the total in \<open>compute_install_size\<close>, on such a platform.\<close>

definition input_size :: "node \<Rightarrow> path \<Rightarrow> nat" where
  "input_size t d =
     (case resolve t d of
        Inr (Dir es) \<Rightarrow> sum_list (map (file_size t) (map ((@) d) (tree_paths (Dir es))))
      | _ \<Rightarrow> file_size t d)"

text \<open>
  A member of the archive at \<open>out\<close> comes from a regular file at or below one of the five
  items under the root: it is named by the relative path of that file and has its time
  and mode, and its bytes unless it is the archive itself.
\<close>

definition member_ok :: "platform \<Rightarrow> node \<Rightarrow> path \<Rightarrow> path \<Rightarrow> zmember \<Rightarrow> bool" where
  "member_ok os t out root m =
     (\<exists>rel. rel \<noteq> [] \<and> hd rel \<in> set item_names \<and>
        (file_at t (root @ [hd rel]) \<or> dir_at t (root @ [hd rel])) \<and>
        arcname m = as_posix rel \<and> file_at t (root @ rel) \<and>
        (root @ rel = out \<or> read_bytes t (root @ rel) = Inr (zm_data m)) \<and>
        zm_mtime m = st_mtime os (root @ rel) \<and> zm_mode m = st_mode os (root @ rel))"

text \<open>
  A platform for the examples: no errors, no links, enumeration in the order of the tree,
  every file of 2023 with mode \<open>0o100644\<close>, an archive encoding that concatenates the
  members' bytes, and the refusal of a time before 1980 (315532800 seconds).
\<close>

definition quiet_platform :: platform where
  "quiet_platform =
     \<lparr>stat_error = (\<lambda>p. None), scandir_error = (\<lambda>p. None), is_symlink = (\<lambda>p. False),
      scan_rank = (\<lambda>p name. 0), st_mtime = (\<lambda>p. 1700000000), st_mode = (\<lambda>p. 33188),
      zip_error = (\<lambda>ms p m. if zm_mtime m < 315532800 then Some ValueError else None),
      zip_self = (\<lambda>ms. []), zip_encode = (\<lambda>ms. concat (map zm_data ms)),
      zip_close_error = (\<lambda>ms. None)\<rparr>"

section \<open>Properties of the manifest update\<close>

lemma subscript_version:
  "subscript_str v ''version'' = Inr x \<longleftrightarrow> entry_version v = Some x"
  by (cases v) (auto simp: entry_version_def split: option.splits)

lemma map_of_dict_set_same: "map_of (dict_set kvs k v) k = Some v"
  by (induction kvs) auto

lemma map_of_dict_set_other: "k' \<noteq> k \<Longrightarrow> map_of (dict_set kvs k v) k' = map_of kvs k'"
  by (induction kvs) auto

lemma dict_set_idem: "dict_set (dict_set kvs k v) k v = dict_set kvs k v"
  by (induction kvs) auto

lemma find_version_sound:
  "find_version vs ver i = Inr r \<Longrightarrow>
     (case r of
        None \<Rightarrow> \<forall>v\<in>set vs. \<exists>x. entry_version v = Some x \<and> x \<noteq> JStr ver
      | Some n \<Rightarrow> i \<le> n \<and> n - i < length vs \<and> entry_version (vs ! (n - i)) = Some (JStr ver)
           \<and> (\<forall>j<n - i. \<exists>x. entry_version (vs ! j) = Some x \<and> x \<noteq> JStr ver))"
proof (induction vs arbitrary: i)
  case Nil
  then show ?case by auto
next
  case (Cons v vs)
  show ?case
  proof (cases "subscript_str v ''version''")
    case (Inl e)
    with Cons.prems show ?thesis by simp
  next
    case (Inr x)
    then have ev: "entry_version v = Some x" by (simp add: subscript_version)
    show ?thesis
    proof (cases "x = JStr ver")
      case True
      with Inr Cons.prems ev show ?thesis by auto
    next
      case False
      with Inr Cons.prems have rec: "find_version vs ver (Suc i) = Inr r" by simp
      show ?thesis
      proof (cases r)
        case None
        with Cons.IH[OF rec] ev False show ?thesis by auto
      next
        case (Some n)
        with Cons.IH[OF rec] have le: "Suc i \<le> n" and lt: "n - Suc i < length vs"
          and at: "entry_version (vs ! (n - Suc i)) = Some (JStr ver)"
          and before: "\<forall>j<n - Suc i. \<exists>x. entry_version (vs ! j) = Some x \<and> x \<noteq> JStr ver"
          by auto
        from le have eq: "n - i = Suc (n - Suc i)" by simp
        have "\<exists>x. entry_version ((v # vs) ! j) = Some x \<and> x \<noteq> JStr ver" if "j < n - i" for j
          using that before ev False eq by (cases j) auto
        with Some le lt at eq show ?thesis by simp
      qed
    qed
  qed
qed

lemma find_version_total:
  "\<forall>v\<in>set vs. entry_version v \<noteq> None \<Longrightarrow> \<exists>r. find_version vs ver i = Inr r"
proof (induction vs arbitrary: i)
  case Nil
  then show ?case by simp
next
  case (Cons v vs)
  then obtain x where "entry_version v = Some x" by auto
  then have "subscript_str v ''version'' = Inr x" by (simp add: subscript_version)
  with Cons show ?case by auto
qed

lemma find_version_again_Some:
  "find_version vs ver i = Inr (Some n) \<Longrightarrow> entry_version e = Some (JStr ver) \<Longrightarrow>
   find_version (vs[n - i := e]) ver i = Inr (Some n)"
proof (induction vs arbitrary: i)
  case Nil
  then show ?case by simp
next
  case (Cons v vs)
  show ?case
  proof (cases "subscript_str v ''version''")
    case (Inl err)
    with Cons.prems show ?thesis by simp
  next
    case (Inr x)
    show ?thesis
    proof (cases "x = JStr ver")
      case True
      with Inr Cons.prems have "n = i" by simp
      with Cons.prems(2) show ?thesis by (simp add: subscript_version[symmetric])
    next
      case False
      with Inr Cons.prems have rec: "find_version vs ver (Suc i) = Inr (Some n)" by simp
      from find_version_sound[OF rec] have "Suc i \<le> n" by simp
      then have "n - i = Suc (n - Suc i)" by simp
      with Cons.IH[OF rec Cons.prems(2)] Inr False show ?thesis by simp
    qed
  qed
qed

lemma find_version_again_None:
  "find_version vs ver i = Inr None \<Longrightarrow> entry_version e = Some (JStr ver) \<Longrightarrow>
   find_version (vs @ [e]) ver i = Inr (Some (i + length vs))"
proof (induction vs arbitrary: i)
  case Nil
  then show ?case by (simp add: subscript_version[symmetric])
next
  case (Cons v vs)
  then show ?case
    by (auto split: sum.splits if_splits)
qed

lemma upsert_version_Inr:
  "upsert_version x ver e = Inr vs' \<Longrightarrow>
   \<exists>vs r. x = JList vs \<and> find_version vs ver 0 = Inr r \<and>
     vs' = (case r of Some i \<Rightarrow> vs[i := e] | None \<Rightarrow> vs @ [e])"
  by (cases x) (auto split: sum.splits option.splits if_splits)

lemma update_pkg_Inr:
  "update_pkg pkg ver e = Inr pkg' \<Longrightarrow>
   \<exists>pkvs vs'. pkg = JObj pkvs \<and>
     upsert_version (case map_of pkvs ''versions'' of None \<Rightarrow> JList [] | Some vs \<Rightarrow> vs) ver e = Inr vs' \<and>
     pkg' = JObj (dict_set pkvs ''versions'' (JList vs'))"
  by (cases pkg) (auto split: sum.splits)

lemma update_first_package_Inr:
  "update_first_package pkgs ver e = Inr pkgs' \<Longrightarrow>
   \<exists>pkg rest pkg'. pkgs = JList (pkg # rest) \<and> update_pkg pkg ver e = Inr pkg' \<and>
     pkgs' = JList (pkg' # rest)"
proof (cases pkgs)
  case (JList xs)
  assume "update_first_package pkgs ver e = Inr pkgs'"
  with JList show ?thesis by (cases xs) (auto split: sum.splits)
qed (auto split: if_splits)

lemma update_packages_data_Inr:
  "update_packages_data doc ver tag sha dsz isz = Inr doc' \<Longrightarrow>
   \<exists>dkvs pkgs pkgs'. doc = JObj dkvs \<and> map_of dkvs ''packages'' = Some pkgs \<and>
     update_first_package pkgs ver (new_version_entry ver tag sha dsz isz) = Inr pkgs' \<and>
     doc' = JObj (dict_set dkvs ''packages'' pkgs')"
  by (cases doc) (auto split: sum.splits option.splits)

lemma entry_version_new [simp]:
  "entry_version (new_version_entry ver tag sha dsz isz) = Some (JStr ver)"
  by (simp add: entry_version_def new_version_entry_def)

lemma upsert_version_again:
  assumes "upsert_version x ver e = Inr vs'" and "entry_version e = Some (JStr ver)"
  shows "upsert_version (JList vs') ver e = Inr vs'"
proof -
  from upsert_version_Inr[OF assms(1)] obtain vs r where
    x: "x = JList vs" and f: "find_version vs ver 0 = Inr r" and
    vs': "vs' = (case r of Some i \<Rightarrow> vs[i := e] | None \<Rightarrow> vs @ [e])" by blast
  show ?thesis
  proof (cases r)
    case None
    with f assms(2) have "find_version (vs @ [e]) ver 0 = Inr (Some (length vs))"
      using find_version_again_None[of vs ver 0 e] by simp
    with None vs' show ?thesis by simp
  next
    case (Some i)
    with f assms(2) have "find_version (vs[i := e]) ver 0 = Inr (Some i)"
      using find_version_again_Some[of vs ver 0 i e] by simp
    with Some vs' show ?thesis by simp
  qed
qed

lemma update_packages_data_again:
  assumes "update_packages_data doc ver tag sha dsz isz = Inr doc'"
  shows "update_packages_data doc' ver tag sha dsz isz = Inr doc'"
proof -
  let ?e = "new_version_entry ver tag sha dsz isz"
  from update_packages_data_Inr[OF assms] obtain dkvs pkgs pkgs' where
    doc: "doc = JObj dkvs" and "map_of dkvs ''packages'' = Some pkgs" and
    ufp: "update_first_package pkgs ver ?e = Inr pkgs'" and
    doc': "doc' = JObj (dict_set dkvs ''packages'' pkgs')" by blast
  from update_first_package_Inr[OF ufp] obtain pkg rest pkg' where
    "pkgs = JList (pkg # rest)" and up: "update_pkg pkg ver ?e = Inr pkg'" and
    pkgs': "pkgs' = JList (pkg' # rest)" by blast
  from update_pkg_Inr[OF up] obtain pkvs vs' where
    "pkg = JObj pkvs" and
    uv: "upsert_version (case map_of pkvs ''versions'' of None \<Rightarrow> JList [] | Some vs \<Rightarrow> vs) ver ?e = Inr vs'" and
    pkg': "pkg' = JObj (dict_set pkvs ''versions'' (JList vs'))" by blast
  have "upsert_version (JList vs') ver ?e = Inr vs'"
    by (rule upsert_version_again[OF uv]) simp
  then have "update_pkg pkg' ver ?e = Inr pkg'"
    by (simp add: pkg' map_of_dict_set_same dict_set_idem)
  then have "update_first_package pkgs' ver ?e = Inr pkgs'"
    by (simp add: pkgs')
  then show ?thesis
    by (simp add: doc' map_of_dict_set_same dict_set_idem)
qed

lemma versions_of_Some:
  "versions_of doc = Some vs \<Longrightarrow>
   \<exists>dkvs pkvs rest. doc = JObj dkvs \<and> map_of dkvs ''packages'' = Some (JList (JObj pkvs # rest))
     \<and> map_of pkvs ''versions'' = Some (JList vs)"
  by (auto simp: versions_of_def split: json.splits option.splits list.splits)

lemma versions_of_update:
  assumes "versions_of doc = Some vs" and "find_version vs ver 0 = Inr r"
  shows "\<exists>doc'. update_packages_data doc ver tag sha dsz isz = Inr doc' \<and>
     versions_of doc' = Some (case r of Some i \<Rightarrow> vs[i := new_version_entry ver tag sha dsz isz]
                                | None \<Rightarrow> vs @ [new_version_entry ver tag sha dsz isz])"
proof -
  from versions_of_Some[OF assms(1)] obtain dkvs pkvs rest where
    "doc = JObj dkvs" "map_of dkvs ''packages'' = Some (JList (JObj pkvs # rest))"
    "map_of pkvs ''versions'' = Some (JList vs)" by blast
  with assms(2) show ?thesis
    by (cases r) (simp_all add: versions_of_def map_of_dict_set_same)
qed

lemma versions_of_update_conv:
  assumes "update_packages_data doc ver tag sha dsz isz = Inr doc'"
  shows "\<exists>vs r. find_version vs ver 0 = Inr r \<and>
     versions_of doc' = Some (case r of Some i \<Rightarrow> vs[i := new_version_entry ver tag sha dsz isz]
                                | None \<Rightarrow> vs @ [new_version_entry ver tag sha dsz isz])"
proof -
  let ?e = "new_version_entry ver tag sha dsz isz"
  from update_packages_data_Inr[OF assms] obtain dkvs pkgs pkgs' where
    doc: "doc = JObj dkvs" and "map_of dkvs ''packages'' = Some pkgs" and
    ufp: "update_first_package pkgs ver ?e = Inr pkgs'" and
    doc': "doc' = JObj (dict_set dkvs ''packages'' pkgs')" by blast
  from update_first_package_Inr[OF ufp] obtain pkg rest pkg' where
    "pkgs = JList (pkg # rest)" and up: "update_pkg pkg ver ?e = Inr pkg'" and
    pkgs': "pkgs' = JList (pkg' # rest)" by blast
  from update_pkg_Inr[OF up] obtain pkvs vs' where
    "pkg = JObj pkvs" and
    uv: "upsert_version (case map_of pkvs ''versions'' of None \<Rightarrow> JList [] | Some vs \<Rightarrow> vs) ver ?e = Inr vs'" and
    pkg': "pkg' = JObj (dict_set pkvs ''versions'' (JList vs'))" by blast
  from upsert_version_Inr[OF uv] obtain vs r where
    f: "find_version vs ver 0 = Inr r" and
    vs': "vs' = (case r of Some i \<Rightarrow> vs[i := ?e] | None \<Rightarrow> vs @ [?e])" by blast
  have "versions_of doc' = Some vs'"
    by (simp add: versions_of_def doc' pkgs' pkg' map_of_dict_set_same)
  with f vs' show ?thesis by blast
qed

text \<open>
  Claim C1 (as amended).  For a manifest whose first package has a versions list in which
  every record is an object with a \<open>"version"\<close> key, the update is an upsert keyed by the
  version string.  If some record carries the given version, the list keeps its length,
  the new entry stands at the position of such a record, and every other position (so
  every record with a different version string) is unchanged.  If no record carries it,
  the new entry is appended at the end and the list is one longer.
\<close>
theorem update_packages_upsert:
  assumes "versions_of doc = Some vs"
    and "\<forall>v\<in>set vs. entry_version v \<noteq> None"
  shows "\<exists>doc' vs'. update_packages_data doc ver tag sha dsz isz = Inr doc' \<and>
      versions_of doc' = Some vs' \<and>
      ((\<exists>v\<in>set vs. entry_version v = Some (JStr ver)) \<longrightarrow>
         length vs' = length vs \<and>
         (\<exists>i<length vs. entry_version (vs ! i) = Some (JStr ver) \<and>
            vs' ! i = new_version_entry ver tag sha dsz isz \<and>
            (\<forall>j<length vs. j \<noteq> i \<longrightarrow> vs' ! j = vs ! j)) \<and>
         (\<forall>j<length vs. entry_version (vs ! j) \<noteq> Some (JStr ver) \<longrightarrow> vs' ! j = vs ! j)) \<and>
      ((\<forall>v\<in>set vs. entry_version v \<noteq> Some (JStr ver)) \<longrightarrow>
         vs' = vs @ [new_version_entry ver tag sha dsz isz] \<and> length vs' = length vs + 1)"
proof -
  let ?e = "new_version_entry ver tag sha dsz isz"
  from find_version_total[OF assms(2)] obtain r where f: "find_version vs ver 0 = Inr r" by blast
  from versions_of_update[OF assms(1) f] obtain doc' where
    u: "update_packages_data doc ver tag sha dsz isz = Inr doc'" and
    v: "versions_of doc' = Some (case r of Some i \<Rightarrow> vs[i := ?e] | None \<Rightarrow> vs @ [?e])" by blast
  show ?thesis
  proof (cases r)
    case None
    with find_version_sound[OF f] have "\<forall>v\<in>set vs. entry_version v \<noteq> Some (JStr ver)" by auto
    with u v None show ?thesis by auto
  next
    case (Some i)
    with find_version_sound[OF f] have i: "i < length vs"
      and at: "entry_version (vs ! i) = Some (JStr ver)" by auto
    then have ex: "\<exists>v\<in>set vs. entry_version v = Some (JStr ver)"
      using nth_mem by blast
    have unch: "\<forall>j<length vs. entry_version (vs ! j) \<noteq> Some (JStr ver) \<longrightarrow> vs[i := ?e] ! j = vs ! j"
      using at by (metis nth_list_update_neq)
    have "\<exists>k<length vs. entry_version (vs ! k) = Some (JStr ver) \<and> vs[i := ?e] ! k = ?e \<and>
            (\<forall>j<length vs. j \<noteq> k \<longrightarrow> vs[i := ?e] ! j = vs ! j)"
      using i at by (intro exI[of _ i]) simp
    with u v Some ex unch show ?thesis by auto
  qed
qed

theorem update_packages_upsert_witness:
  "(\<exists>doc' vs'.
     update_packages_data
       (JObj [(''packages'', JList [JObj [(''versions'',
          JList [JObj [(''version'', JStr ''A'')], JObj [(''version'', JStr ''B'')]])]])])
       ''A'' ''vA'' ''00'' 10 20 = Inr doc' \<and>
     versions_of doc' = Some vs' \<and> length vs' = 2 \<and>
     vs' ! 0 = new_version_entry ''A'' ''vA'' ''00'' 10 20 \<and>
     vs' ! 1 = JObj [(''version'', JStr ''B'')]) \<and>
   (\<exists>doc' vs'.
     update_packages_data
       (JObj [(''packages'', JList [JObj [(''versions'',
          JList [JObj [(''version'', JStr ''A'')], JObj [(''version'', JStr ''B'')]])]])])
       ''C'' ''vC'' ''00'' 10 20 = Inr doc' \<and>
     versions_of doc' = Some vs' \<and> length vs' = 3 \<and>
     vs' = [JObj [(''version'', JStr ''A'')], JObj [(''version'', JStr ''B'')],
            new_version_entry ''C'' ''vC'' ''00'' 10 20])"
proof -
  let ?doc = "JObj [(''packages'', JList [JObj [(''versions'',
          JList [JObj [(''version'', JStr ''A'')], JObj [(''version'', JStr ''B'')]])]])]"
  let ?vs = "[JObj [(''version'', JStr ''A'')], JObj [(''version'', JStr ''B'')]]"
  have a: "\<exists>doc' vs'.
     update_packages_data ?doc ''A'' ''vA'' ''00'' 10 20 = Inr doc' \<and>
     versions_of doc' = Some vs' \<and> length vs' = 2 \<and>
     vs' ! 0 = new_version_entry ''A'' ''vA'' ''00'' 10 20 \<and>
     vs' ! 1 = JObj [(''version'', JStr ''B'')]"
    using update_packages_upsert[of ?doc ?vs "''A''" "''vA''" "''00''" 10 20]
    by (simp add: versions_of_def entry_version_def new_version_entry_def)
  have c: "\<exists>doc' vs'.
     update_packages_data ?doc ''C'' ''vC'' ''00'' 10 20 = Inr doc' \<and>
     versions_of doc' = Some vs' \<and> length vs' = 3 \<and>
     vs' = [JObj [(''version'', JStr ''A'')], JObj [(''version'', JStr ''B'')],
            new_version_entry ''C'' ''vC'' ''00'' 10 20]"
    using update_packages_upsert[of ?doc ?vs "''C''" "''vC''" "''00''" 10 20]
    by (simp add: versions_of_def entry_version_def)
  from a c show ?thesis by (rule conjI)
qed

text \<open>
  Without the condition on the records the update can fail: with the versions list
  \<open>[{"status": "old"}, {"version": "A"}]\<close> and the version \<open>A\<close>, the loop asks the first
  record for its \<open>"version"\<close> and raises a KeyError before it reaches the record that
  matches; nothing is replaced.
\<close>
theorem update_packages_upsert_counterexample:
  "versions_of (JObj [(''packages'', JList [JObj [(''versions'',
       JList [JObj [(''status'', JStr ''old'')], JObj [(''version'', JStr ''A'')]])]])])
     = Some [JObj [(''status'', JStr ''old'')], JObj [(''version'', JStr ''A'')]] \<and>
   entry_version (JObj [(''version'', JStr ''A'')]) = Some (JStr ''A'') \<and>
   update_packages_data
     (JObj [(''packages'', JList [JObj [(''versions'',
       JList [JObj [(''status'', JStr ''old'')], JObj [(''version'', JStr ''A'')]])]])])
     ''A'' ''vA'' ''00'' 10 20 = Inl KeyError"
  by (simp add: versions_of_def entry_version_def)

text \<open>
  Claim C4.  Whenever the update succeeds, the entry written for the given version (the
  first record of the resulting list that carries this version) has status
  \<open>"stable"\<close>, the platform tag \<open>"8.0"\<close>, the given hash and sizes, and the download
  URL made of the fixed base, the release tag and the version; the URL ends in
  \<open>PULSAR-KiCad-Lib-<version>.zip\<close>.
\<close>
theorem update_packages_entry_fields:
  assumes "update_packages_data doc ver tag sha dsz isz = Inr doc'"
  shows "\<exists>vs' i e url. versions_of doc' = Some vs' \<and> i < length vs' \<and> vs' ! i = e \<and>
      (\<forall>j<i. entry_version (vs' ! j) \<noteq> Some (JStr ver)) \<and>
      subscript_str e ''version'' = Inr (JStr ver) \<and>
      subscript_str e ''status'' = Inr (JStr ''stable'') \<and>
      subscript_str e ''kicad_version'' = Inr (JStr ''8.0'') \<and>
      subscript_str e ''download_sha256'' = Inr (JStr sha) \<and>
      subscript_str e ''download_size'' = Inr (JInt dsz) \<and>
      subscript_str e ''install_size'' = Inr (JInt isz) \<and>
      subscript_str e ''download_url'' = Inr (JStr url) \<and>
      url = ''https://github.com/Alex-C-EE/PULSAR-KiCad-Lib/releases/download/'' @ tag
              @ ''/PULSAR-KiCad-Lib-'' @ ver @ ''.zip'' \<and>
      suffix (''PULSAR-KiCad-Lib-'' @ ver @ ''.zip'') url"
proof -
  let ?e = "new_version_entry ver tag sha dsz isz"
  let ?url = "download_url tag ver"
  from versions_of_update_conv[OF assms] obtain vs r where
    f: "find_version vs ver 0 = Inr r" and
    v: "versions_of doc' = Some (case r of Some i \<Rightarrow> vs[i := ?e] | None \<Rightarrow> vs @ [?e])"
    by blast
  have fields: "subscript_str ?e ''version'' = Inr (JStr ver)"
    "subscript_str ?e ''status'' = Inr (JStr ''stable'')"
    "subscript_str ?e ''kicad_version'' = Inr (JStr ''8.0'')"
    "subscript_str ?e ''download_sha256'' = Inr (JStr sha)"
    "subscript_str ?e ''download_size'' = Inr (JInt dsz)"
    "subscript_str ?e ''install_size'' = Inr (JInt isz)"
    "subscript_str ?e ''download_url'' = Inr (JStr ?url)"
    by (simp_all add: new_version_entry_def)
  have url: "?url = ''https://github.com/Alex-C-EE/PULSAR-KiCad-Lib/releases/download/'' @ tag
              @ ''/PULSAR-KiCad-Lib-'' @ ver @ ''.zip''"
    by (simp add: download_url_def)
  have suf: "suffix (''PULSAR-KiCad-Lib-'' @ ver @ ''.zip'') ?url"
    unfolding download_url_def suffix_def
    by (rule exI[of _ "''https://github.com/Alex-C-EE/PULSAR-KiCad-Lib/releases/download/'' @ tag @ ''/''"]) simp
  obtain vs' i where vs': "versions_of doc' = Some vs'" and i: "i < length vs'"
    and at: "vs' ! i = ?e" and before: "\<forall>j<i. entry_version (vs' ! j) \<noteq> Some (JStr ver)"
  proof (cases r)
    case None
    with find_version_sound[OF f] have "\<forall>v\<in>set vs. entry_version v \<noteq> Some (JStr ver)" by auto
    then have "\<forall>j<length vs. entry_version ((vs @ [?e]) ! j) \<noteq> Some (JStr ver)"
      by (simp add: nth_append)
    with None v that[of "vs @ [?e]" "length vs"] show ?thesis by simp
  next
    case (Some n)
    with find_version_sound[OF f] have n: "n < length vs"
      and b: "\<forall>j<n. entry_version (vs ! j) \<noteq> Some (JStr ver)" by auto
    from b have "\<forall>j<n. entry_version (vs[n := ?e] ! j) \<noteq> Some (JStr ver)" by simp
    with Some v n that[of "vs[n := ?e]" n] show ?thesis by simp
  qed
  with fields url suf show ?thesis by blast
qed

theorem update_packages_entry_fields_witness:
  "update_packages_data (JObj [(''packages'', JList [JObj []])])
      ''2.0.0'' ''v2.0.0'' ''00'' 10 20 =
    Inr (JObj [(''packages'', JList [JObj [(''versions'', JList [
       new_version_entry ''2.0.0'' ''v2.0.0'' ''00'' 10 20])]])]) \<and>
   (\<exists>vs' e. versions_of (JObj [(''packages'', JList [JObj [(''versions'', JList [
       new_version_entry ''2.0.0'' ''v2.0.0'' ''00'' 10 20])]])]) = Some vs' \<and>
     e \<in> set vs' \<and>
     subscript_str e ''status'' = Inr (JStr ''stable'') \<and>
     subscript_str e ''download_url'' = Inr (JStr
       ''https://github.com/Alex-C-EE/PULSAR-KiCad-Lib/releases/download/v2.0.0/PULSAR-KiCad-Lib-2.0.0.zip''))"
proof -
  have u: "update_packages_data (JObj [(''packages'', JList [JObj []])])
      ''2.0.0'' ''v2.0.0'' ''00'' 10 20 =
    Inr (JObj [(''packages'', JList [JObj [(''versions'', JList [
       new_version_entry ''2.0.0'' ''v2.0.0'' ''00'' 10 20])]])])"
    by simp
  from update_packages_entry_fields[OF u] obtain vs' i where
    "versions_of (JObj [(''packages'', JList [JObj [(''versions'', JList [
       new_version_entry ''2.0.0'' ''v2.0.0'' ''00'' 10 20])]])]) = Some vs'"
    "i < length vs'"
    "subscript_str (vs' ! i) ''status'' = Inr (JStr ''stable'')"
    "subscript_str (vs' ! i) ''download_url'' = Inr (JStr
       (''https://github.com/Alex-C-EE/PULSAR-KiCad-Lib/releases/download/'' @ ''v2.0.0''
              @ ''/PULSAR-KiCad-Lib-'' @ ''2.0.0'' @ ''.zip''))"
    by auto
  with u show ?thesis
    by (intro conjI exI[of _ vs'] exI[of _ "vs' ! i"]) simp_all
qed

section \<open>Properties of the file-level functions\<close>

lemma write_bytes_file:
  "resolve t p = Inr (File old) \<Longrightarrow>
   \<exists>t'. write_bytes t p bs = Inr t' \<and> resolve t' p = Inr (File bs)"
proof (induction t p arbitrary: old rule: resolve.induct)
  case (1 n)
  then show ?case by simp
next
  case (2 es c p)
  then obtain ch where ch: "map_of es c = Some ch" and r: "resolve ch p = Inr (File old)"
    by (auto split: option.splits)
  from "2.IH"[OF ch r] obtain ch' where
    "write_bytes ch p bs = Inr ch'" "resolve ch' p = Inr (File bs)" by blast
  with ch show ?case by (simp add: map_of_dict_set_same)
qed simp_all

lemma read_bytes_file: "read_bytes t p = Inr bs \<longleftrightarrow> resolve t p = Inr (File bs)"
  by (auto simp: read_bytes_def split: sum.splits node.splits)

lemma fs_print [simp]: "fs (print w s) = fs w"
  by (simp add: print_def)

lemma stdout_print [simp]: "stdout (print w s) = stdout w @ [s]"
  by (simp add: print_def)

lemma fs_foldl_print [simp]: "fs (foldl print w ls) = fs w"
  by (induction ls arbitrary: w) simp_all

lemma stdout_foldl_print [simp]: "stdout (foldl print w ls) = stdout w @ ls"
  by (induction ls arbitrary: w) simp_all

text \<open>
  Claim C9.  Whatever the metadata document (a JSON object) held before, and however many
  records its versions list had, the update succeeds and the file then holds the
  document whose \<open>"versions"\<close> is the one-element list with the given version, status
  \<open>"stable"\<close> and platform tag \<open>"8.0"\<close>; the other keys keep their values.
\<close>
theorem update_metadata_single_version:
  assumes "read_bytes (fs w) p = Inr raw" and "loads raw = Some (JObj kvs)"
  shows "\<exists>w' kvs'. update_metadata_json loads dumps w p ver = (Inr (), w') \<and>
      read_bytes (fs w') p = Inr (dumps (JObj kvs') @ [newline]) \<and>
      map_of kvs' ''versions'' =
        Some (JList [JObj [(''version'', JStr ver), (''status'', JStr ''stable''),
                           (''kicad_version'', JStr ''8.0'')]]) \<and>
      (\<forall>k. k \<noteq> ''versions'' \<longrightarrow> map_of kvs' k = map_of kvs k)"
proof -
  let ?kvs' = "dict_set kvs ''versions'' (JList [metadata_version_entry ver])"
  from assms(1) have "resolve (fs w) p = Inr (File raw)" by (simp add: read_bytes_file)
  from write_bytes_file[OF this, of "dumps (JObj ?kvs') @ [newline]"] obtain t' where
    wr: "write_bytes (fs w) p (dumps (JObj ?kvs') @ [newline]) = Inr t'" and
    rd: "read_bytes t' p = Inr (dumps (JObj ?kvs') @ [newline])"
    by (auto simp: read_bytes_file)
  let ?w' = "print (w\<lparr>fs := t'\<rparr>) (''Updated '' @ path_str p)"
  have "update_metadata_json loads dumps w p ver = (Inr (), ?w')"
    using assms wr by (simp add: update_metadata_json_def)
  moreover have "read_bytes (fs ?w') p = Inr (dumps (JObj ?kvs') @ [newline])"
    using rd by simp
  moreover have "map_of ?kvs' ''versions'' =
        Some (JList [JObj [(''version'', JStr ver), (''status'', JStr ''stable''),
                           (''kicad_version'', JStr ''8.0'')]])"
    by (simp add: map_of_dict_set_same metadata_version_entry_def)
  moreover have "\<forall>k. k \<noteq> ''versions'' \<longrightarrow> map_of ?kvs' k = map_of kvs k"
    by (simp add: map_of_dict_set_other)
  ultimately show ?thesis by blast
qed

theorem update_metadata_single_version_witness:
  "\<exists>w' kvs'.
     update_metadata_json
       (\<lambda>raw. if raw = [] then Some (JObj [(''name'', JStr ''PULSAR''),
           (''versions'', JList [JObj [(''version'', JStr ''0.9.0'')],
                                 JObj [(''version'', JStr ''1.0.0'')]])]) else None)
       (\<lambda>d. [1]) \<lparr>fs = Dir [(''metadata.json'', File [])], stdout = []\<rparr>
       [''metadata.json''] ''2.0.0'' = (Inr (), w') \<and>
     read_bytes (fs w') [''metadata.json''] = Inr ([1] @ [newline]) \<and>
     map_of kvs' ''versions'' =
        Some (JList [JObj [(''version'', JStr ''2.0.0''), (''status'', JStr ''stable''),
                           (''kicad_version'', JStr ''8.0'')]]) \<and>
     (\<forall>k. k \<noteq> ''versions'' \<longrightarrow> map_of kvs' k =
        map_of [(''name'', JStr ''PULSAR''),
           (''versions'', JList [JObj [(''version'', JStr ''0.9.0'')],
                                 JObj [(''version'', JStr ''1.0.0'')]])] k)"
  using update_metadata_single_version
    [where loads = "\<lambda>raw. if raw = [] then Some (JObj [(''name'', JStr ''PULSAR''),
           (''versions'', JList [JObj [(''version'', JStr ''0.9.0'')],
                                 JObj [(''version'', JStr ''1.0.0'')]])]) else None"
       and dumps = "\<lambda>d. [1]" and raw = "[]"
       and w = "\<lparr>fs = Dir [(''metadata.json'', File [])], stdout = []\<rparr>"
       and p = "[''metadata.json'']" and ver = "''2.0.0''"
       and kvs = "[(''name'', JStr ''PULSAR''),
           (''versions'', JList [JObj [(''version'', JStr ''0.9.0'')],
                                 JObj [(''version'', JStr ''1.0.0'')]])]"]
  by (simp add: read_bytes_def)

text \<open>
  Claim C10.  When the manifest document has no \<open>"packages"\<close> key, or an empty list
  under it, \<open>update_packages_json\<close> raises (a KeyError, an IndexError) and leaves the
  state as it found it: the exception comes after the file is read and before it is
  opened for writing, so the file on disk is unchanged.
\<close>
theorem update_packages_json_atomic:
  assumes "read_bytes (fs w) p = Inr raw" and "loads raw = Some (JObj dkvs)"
    and "map_of dkvs ''packages'' = None \<or> map_of dkvs ''packages'' = Some (JList [])"
  shows "(\<exists>e. update_packages_json loads dumps w p ver tag sha dsz isz = (Inl e, w)) \<and>
     (map_of dkvs ''packages'' = None \<longrightarrow>
        update_packages_json loads dumps w p ver tag sha dsz isz = (Inl KeyError, w)) \<and>
     (map_of dkvs ''packages'' = Some (JList []) \<longrightarrow>
        update_packages_json loads dumps w p ver tag sha dsz isz = (Inl IndexError, w))"
  using assms by (auto simp: update_packages_json_def)

theorem update_packages_json_atomic_witness:
  "update_packages_json (\<lambda>raw. if raw = [] then Some (JObj []) else None) (\<lambda>d. [])
       \<lparr>fs = Dir [(''packages.json'', File [])], stdout = []\<rparr>
       [''packages.json''] ''1.0.0'' ''v1.0.0'' ''00'' 1 2
     = (Inl KeyError, \<lparr>fs = Dir [(''packages.json'', File [])], stdout = []\<rparr>) \<and>
   update_packages_json
       (\<lambda>raw. if raw = [] then Some (JObj [(''packages'', JList [])]) else None) (\<lambda>d. [])
       \<lparr>fs = Dir [(''packages.json'', File [])], stdout = []\<rparr>
       [''packages.json''] ''1.0.0'' ''v1.0.0'' ''00'' 1 2
     = (Inl IndexError, \<lparr>fs = Dir [(''packages.json'', File [])], stdout = []\<rparr>)"
proof -
  have a: "update_packages_json (\<lambda>raw. if raw = [] then Some (JObj []) else None) (\<lambda>d. [])
       \<lparr>fs = Dir [(''packages.json'', File [])], stdout = []\<rparr>
       [''packages.json''] ''1.0.0'' ''v1.0.0'' ''00'' 1 2
     = (Inl KeyError, \<lparr>fs = Dir [(''packages.json'', File [])], stdout = []\<rparr>)"
    using update_packages_json_atomic
      [where loads = "\<lambda>raw. if raw = [] then Some (JObj []) else None" and dumps = "\<lambda>d. []"
         and raw = "[]" and dkvs = "[]"
         and w = "\<lparr>fs = Dir [(''packages.json'', File [])], stdout = []\<rparr>"
         and p = "[''packages.json'']" and ver = "''1.0.0''" and tag = "''v1.0.0''"
         and sha = "''00''" and dsz = 1 and isz = 2]
    by (simp add: read_bytes_def)
  have b: "update_packages_json
       (\<lambda>raw. if raw = [] then Some (JObj [(''packages'', JList [])]) else None) (\<lambda>d. [])
       \<lparr>fs = Dir [(''packages.json'', File [])], stdout = []\<rparr>
       [''packages.json''] ''1.0.0'' ''v1.0.0'' ''00'' 1 2
     = (Inl IndexError, \<lparr>fs = Dir [(''packages.json'', File [])], stdout = []\<rparr>)"
    using update_packages_json_atomic
      [where loads = "\<lambda>raw. if raw = [] then Some (JObj [(''packages'', JList [])]) else None"
         and dumps = "\<lambda>d. []" and raw = "[]" and dkvs = "[(''packages'', JList [])]"
         and w = "\<lparr>fs = Dir [(''packages.json'', File [])], stdout = []\<rparr>"
         and p = "[''packages.json'']" and ver = "''1.0.0''" and tag = "''v1.0.0''"
         and sha = "''00''" and dsz = 1 and isz = 2]
    by (simp add: read_bytes_def)
  from a b show ?thesis by (rule conjI)
qed

lemma dict_set_same: "map_of kvs k = Some v \<Longrightarrow> dict_set kvs k v = kvs"
  by (induction kvs) (auto split: if_splits)

lemma write_bytes_same: "resolve t p = Inr (File bs) \<Longrightarrow> write_bytes t p bs = Inr t"
proof (induction t p rule: resolve.induct)
  case (1 n)
  then show ?case by simp
next
  case (2 es c p)
  then obtain ch where ch: "map_of es c = Some ch" and r: "resolve ch p = Inr (File bs)"
    by (auto split: option.splits)
  from "2.IH"[OF ch r] ch show ?case by (simp add: dict_set_same)
qed simp_all

lemma update_packages_json_twice:
  assumes "read_bytes (fs w) p = Inr raw" and "loads raw = Some doc"
    and "update_packages_data doc ver tag sha dsz isz = Inr doc'"
    and "loads (dumps doc' @ [newline]) = Some doc'"
  shows "\<exists>w1 w2. update_packages_json loads dumps w p ver tag sha dsz isz = (Inr (), w1) \<and>
     update_packages_json loads dumps w1 p ver tag sha dsz isz = (Inr (), w2) \<and>
     fs w2 = fs w1 \<and> read_bytes (fs w1) p = Inr (dumps doc' @ [newline])"
proof -
  let ?out = "dumps doc' @ [newline]"
  from assms(1) have "resolve (fs w) p = Inr (File raw)" by (simp add: read_bytes_file)
  from write_bytes_file[OF this, of ?out] obtain t1 where
    wr: "write_bytes (fs w) p ?out = Inr t1" and rs: "resolve t1 p = Inr (File ?out)" by blast
  let ?w1 = "print (w\<lparr>fs := t1\<rparr>) (''Updated '' @ path_str p)"
  let ?w2 = "print (?w1\<lparr>fs := t1\<rparr>) (''Updated '' @ path_str p)"
  have first: "update_packages_json loads dumps w p ver tag sha dsz isz = (Inr (), ?w1)"
    using assms(1-3) wr by (simp add: update_packages_json_def)
  have rd: "read_bytes (fs ?w1) p = Inr ?out"
    using rs by (simp add: read_bytes_file)
  have again: "update_packages_data doc' ver tag sha dsz isz = Inr doc'"
    using assms(3) by (rule update_packages_data_again)
  have wr2: "write_bytes (fs ?w1) p ?out = Inr t1"
    using write_bytes_same[OF rs] by simp
  have second: "update_packages_json loads dumps ?w1 p ver tag sha dsz isz = (Inr (), ?w2)"
    using rd assms(4) again wr2 by (simp add: update_packages_json_def)
  have "fs ?w2 = fs ?w1" by simp
  with first second rd show ?thesis by blast
qed

text \<open>
  Claim C7 (as amended).  Updating twice with the same version, tag, hash and sizes gives
  the same document as updating once (and the same exception when the first update
  raises); updating with a version string that no record of the list carries, when every
  record of the list is an object with a \<open>"version"\<close> key, makes the list one longer.  On
  the file: when the update of the document in the file succeeds and \<open>json.load\<close> reads
  back what \<open>json.dump\<close> wrote, a second run succeeds as well and leaves the file system
  as the first run left it.
\<close>

theorem update_packages_idempotent:
  "(case update_packages_data doc ver tag sha dsz isz of
      Inl e \<Rightarrow> Inl e
    | Inr d \<Rightarrow> update_packages_data d ver tag sha dsz isz)
     = update_packages_data doc ver tag sha dsz isz
   \<and> (\<forall>vs. versions_of doc = Some vs \<and>
            (\<forall>v\<in>set vs. \<exists>x. entry_version v = Some x \<and> x \<noteq> JStr ver) \<longrightarrow>
        (\<exists>doc' vs'. update_packages_data doc ver tag sha dsz isz = Inr doc' \<and>
           versions_of doc' = Some vs' \<and> length vs' = length vs + 1))
   \<and> (\<forall>raw doc'. read_bytes (fs w) p = Inr raw \<and> loads raw = Some doc \<and>
            update_packages_data doc ver tag sha dsz isz = Inr doc' \<and>
            loads (dumps doc' @ [newline]) = Some doc' \<longrightarrow>
        (\<exists>w1 w2. update_packages_json loads dumps w p ver tag sha dsz isz = (Inr (), w1) \<and>
           update_packages_json loads dumps w1 p ver tag sha dsz isz = (Inr (), w2) \<and>
           fs w2 = fs w1 \<and> read_bytes (fs w1) p = Inr (dumps doc' @ [newline])))"
proof (intro conjI allI impI)
  show "(case update_packages_data doc ver tag sha dsz isz of
      Inl e \<Rightarrow> Inl e
    | Inr d \<Rightarrow> update_packages_data d ver tag sha dsz isz)
     = update_packages_data doc ver tag sha dsz isz"
    by (cases "update_packages_data doc ver tag sha dsz isz")
       (simp_all add: update_packages_data_again)
next
  fix vs
  assume a: "versions_of doc = Some vs \<and>
            (\<forall>v\<in>set vs. \<exists>x. entry_version v = Some x \<and> x \<noteq> JStr ver)"
  then have "\<forall>v\<in>set vs. entry_version v \<noteq> None" by auto
  from find_version_total[OF this] obtain r where f: "find_version vs ver 0 = Inr r" by blast
  have "r = None"
  proof (cases r)
    case (Some n)
    with find_version_sound[OF f] have "n < length vs"
      "entry_version (vs ! n) = Some (JStr ver)" by auto
    with a show ?thesis by (metis nth_mem option.inject)
  qed simp
  with versions_of_update[OF conjunct1[OF a] f, of tag sha dsz isz]
  show "\<exists>doc' vs'. update_packages_data doc ver tag sha dsz isz = Inr doc' \<and>
           versions_of doc' = Some vs' \<and> length vs' = length vs + 1"
    by auto
next
  fix raw doc'
  assume "read_bytes (fs w) p = Inr raw \<and> loads raw = Some doc \<and>
            update_packages_data doc ver tag sha dsz isz = Inr doc' \<and>
            loads (dumps doc' @ [newline]) = Some doc'"
  then show "\<exists>w1 w2. update_packages_json loads dumps w p ver tag sha dsz isz = (Inr (), w1) \<and>
           update_packages_json loads dumps w1 p ver tag sha dsz isz = (Inr (), w2) \<and>
           fs w2 = fs w1 \<and> read_bytes (fs w1) p = Inr (dumps doc' @ [newline])"
    using update_packages_json_twice[of w p raw loads doc ver tag sha dsz isz doc' dumps]
    by simp
qed

theorem update_packages_idempotent_witness:
  "(\<exists>doc' vs'.
     update_packages_data
       (JObj [(''packages'', JList [JObj [(''versions'', JList [JObj [(''version'', JStr ''A'')]])]])])
       ''C'' ''vC'' ''00'' 10 20 = Inr doc' \<and>
     versions_of doc' = Some vs' \<and> length vs' = 2 \<and>
     update_packages_data doc' ''C'' ''vC'' ''00'' 10 20 = Inr doc') \<and>
   (\<exists>w1 w2.
     update_packages_json
       (\<lambda>raw. if raw = []
          then Some (JObj [(''packages'', JList [JObj [(''versions'',
                 JList [JObj [(''version'', JStr ''A'')]])]])])
          else Some (JObj [(''packages'', JList [JObj [(''versions'',
                 JList [JObj [(''version'', JStr ''A'')],
                        new_version_entry ''C'' ''vC'' ''00'' 10 20])]])]))
       (\<lambda>d. [1]) \<lparr>fs = Dir [(''packages.json'', File [])], stdout = []\<rparr>
       [''packages.json''] ''C'' ''vC'' ''00'' 10 20 = (Inr (), w1) \<and>
     update_packages_json
       (\<lambda>raw. if raw = []
          then Some (JObj [(''packages'', JList [JObj [(''versions'',
                 JList [JObj [(''version'', JStr ''A'')]])]])])
          else Some (JObj [(''packages'', JList [JObj [(''versions'',
                 JList [JObj [(''version'', JStr ''A'')],
                        new_version_entry ''C'' ''vC'' ''00'' 10 20])]])]))
       (\<lambda>d. [1]) w1 [''packages.json''] ''C'' ''vC'' ''00'' 10 20 = (Inr (), w2) \<and>
     fs w2 = fs w1)"
proof -
  let ?doc = "JObj [(''packages'', JList [JObj [(''versions'', JList [JObj [(''version'', JStr ''A'')]])]])]"
  let ?doc1 = "JObj [(''packages'', JList [JObj [(''versions'',
                 JList [JObj [(''version'', JStr ''A'')],
                        new_version_entry ''C'' ''vC'' ''00'' 10 20])]])]"
  let ?loads = "\<lambda>raw::bytes. if raw = [] then Some ?doc else Some ?doc1"
  let ?w = "\<lparr>fs = Dir [(''packages.json'', File [])], stdout = []\<rparr>"
  note t = update_packages_idempotent[where doc = ?doc and ver = "''C''" and tag = "''vC''"
      and sha = "''00''" and dsz = 10 and isz = 20 and loads = ?loads and dumps = "\<lambda>d. [1]"
      and w = ?w and p = "[''packages.json'']"]
  have h: "versions_of ?doc = Some [JObj [(''version'', JStr ''A'')]] \<and>
     (\<forall>v\<in>set [JObj [(''version'', JStr ''A'')]]. \<exists>x. entry_version v = Some x \<and> x \<noteq> JStr ''C'')"
    by (simp add: versions_of_def entry_version_def)
  from conjunct1[OF conjunct2[OF t], rule_format, OF h] obtain doc' vs' where
    u: "update_packages_data ?doc ''C'' ''vC'' ''00'' 10 20 = Inr doc'" and
    v: "versions_of doc' = Some vs'" "length vs' = 2"
    by auto
  have "update_packages_data doc' ''C'' ''vC'' ''00'' 10 20 = Inr doc'"
    using conjunct1[OF t] by (simp only: u sum.case)
  with u v have first: "\<exists>doc' vs'.
     update_packages_data ?doc ''C'' ''vC'' ''00'' 10 20 = Inr doc' \<and>
     versions_of doc' = Some vs' \<and> length vs' = 2 \<and>
     update_packages_data doc' ''C'' ''vC'' ''00'' 10 20 = Inr doc'" by blast
  have g: "read_bytes (fs ?w) [''packages.json''] = Inr [] \<and> ?loads [] = Some ?doc \<and>
      update_packages_data ?doc ''C'' ''vC'' ''00'' 10 20 = Inr ?doc1 \<and>
      ?loads ((\<lambda>d. [1]) ?doc1 @ [newline]) = Some ?doc1"
    by (simp add: read_bytes_def)
  from conjunct2[OF conjunct2[OF t], rule_format, OF g]
  have second: "\<exists>w1 w2.
     update_packages_json ?loads (\<lambda>d. [1]) ?w [''packages.json''] ''C'' ''vC'' ''00'' 10 20
       = (Inr (), w1) \<and>
     update_packages_json ?loads (\<lambda>d. [1]) w1 [''packages.json''] ''C'' ''vC'' ''00'' 10 20
       = (Inr (), w2) \<and>
     fs w2 = fs w1"
    by blast
  from first second show ?thesis by (rule conjI)
qed

text \<open>
  A version string that is absent from the list does not always make the list grow: with
  the versions list \<open>[{"status": "old"}]\<close> and the version \<open>C\<close>, the loop raises a KeyError
  at the record without a \<open>"version"\<close> key.
\<close>
theorem update_packages_idempotent_counterexample:
  "versions_of (JObj [(''packages'', JList [JObj [(''versions'',
       JList [JObj [(''status'', JStr ''old'')]])]])])
     = Some [JObj [(''status'', JStr ''old'')]] \<and>
   entry_version (JObj [(''status'', JStr ''old'')]) \<noteq> Some (JStr ''C'') \<and>
   update_packages_data
     (JObj [(''packages'', JList [JObj [(''versions'',
       JList [JObj [(''status'', JStr ''old'')]])]])])
     ''C'' ''vC'' ''00'' 10 20 = Inl KeyError"
  by (simp add: versions_of_def entry_version_def)

section \<open>Properties of the hash computation\<close>

lemma hash_chunks_append: "hash_chunks unread h = h @ unread"
proof (induction unread h rule: hash_chunks.induct)
  case (1 unread h)
  show ?case
  proof (cases "take 8192 unread = []")
    case True
    then have "unread = []" by simp
    then show ?thesis by (subst hash_chunks.simps) simp
  next
    case False
    then have "hash_chunks unread h =
        hash_chunks (drop 8192 unread) (sha256_update h (take 8192 unread))"
      by (subst hash_chunks.simps) (simp add: Let_def)
    also have "\<dots> = sha256_update h (take 8192 unread) @ drop 8192 unread"
      using "1.IH"[OF refl False] .
    also have "\<dots> = h @ unread"
      by (simp add: sha256_update_def)
    finally show ?thesis .
  qed
qed

text \<open>
  Claim C8.  Hashing a file in chunks of 8192 bytes gives the hex digest of hashing its
  whole content at once, and any two files with the same content get the same hex
  string.
\<close>
theorem compute_sha256_streaming:
  assumes "read_bytes t p = Inr content"
  shows "compute_sha256 digest t p = Inr (one_shot_sha256 digest content) \<and>
     (\<forall>t' p'. read_bytes t' p' = Inr content \<longrightarrow>
        compute_sha256 digest t' p' = compute_sha256 digest t p)"
  using assms
  by (simp add: compute_sha256_def one_shot_sha256_def hash_chunks_append
      sha256_new_def sha256_update_def)

theorem compute_sha256_streaming_witness:
  "compute_sha256 (\<lambda>bs. bs) (Dir [(''a.zip'', File [0x50, 0x4B])]) [''a.zip''] = Inr ''504b''"
  using compute_sha256_streaming
    [where digest = "\<lambda>bs. bs" and t = "Dir [(''a.zip'', File [0x50, 0x4B])]"
       and p = "[''a.zip'']" and content = "[0x50, 0x4B]"]
  by (simp add: read_bytes_def one_shot_sha256_def hexdigest_def sha256_update_def
      sha256_new_def hex_byte_def hex_digit_def)

section \<open>Properties of the validation step\<close>

text \<open>
  Claim C5.  Validation is never fatal.  Whatever the member names of the archive, the
  validation step returns normally (it is the end of \<open>main\<close>), it only appends lines to
  the output, and the file system, the archive with it, is as before.  A missing
  \<open>metadata.json\<close> member, and a missing \<open>symbols/\<close> or \<open>footprints/\<close> prefix, each
  gives its warning line.
\<close>
theorem main_validate_never_fatal:
  assumes "read_bytes (fs w) output_zip = Inr content" and "namelist content = Some names"
  shows "\<exists>w' lines. main_validate namelist w output_zip tag = (Inr (), w') \<and>
      fs w' = fs w \<and> stdout w' = stdout w @ lines \<and>
      (''metadata.json'' \<notin> set names \<longrightarrow>
         ''  WARNING: Missing required file: metadata.json'' \<in> set lines) \<and>
      (\<not> (\<exists>n\<in>set names. prefix ''symbols/'' n) \<longrightarrow>
         ''  WARNING: Missing required directory: symbols/'' \<in> set lines) \<and>
      (\<not> (\<exists>n\<in>set names. prefix ''footprints/'' n) \<longrightarrow>
         ''  WARNING: Missing required directory: footprints/'' \<in> set lines)"
proof -
  let ?w1 = "print w (CHR 0x0A # ''Validating ZIP structure...'')"
  let ?done = "CHR 0x0A # ''Done! Upload '' @ (if output_zip = [] then [] else last output_zip)
                     @ '' as a GitHub Release asset for tag '' @ tag"
  let ?w' = "print (foldl print ?w1 (validation_lines names)) ?done"
  let ?lines = "[CHR 0x0A # ''Validating ZIP structure...''] @ validation_lines names @ [?done]"
  have run: "main_validate namelist w output_zip tag = (Inr (), ?w')"
    using assms by (simp add: main_validate_def Let_def)
  have "fs ?w' = fs w" by simp
  moreover have "stdout ?w' = stdout w @ ?lines" by simp
  moreover have "''metadata.json'' \<notin> set names \<longrightarrow>
         ''  WARNING: Missing required file: metadata.json'' \<in> set ?lines"
    by (simp add: validation_lines_def required_def)
  moreover have "\<not> (\<exists>n\<in>set names. prefix ''symbols/'' n) \<longrightarrow>
         ''  WARNING: Missing required directory: symbols/'' \<in> set ?lines"
    by (simp add: validation_lines_def required_prefixes_def list_ex_iff)
  moreover have "\<not> (\<exists>n\<in>set names. prefix ''footprints/'' n) \<longrightarrow>
         ''  WARNING: Missing required directory: footprints/'' \<in> set ?lines"
    by (simp add: validation_lines_def required_prefixes_def list_ex_iff)
  ultimately show ?thesis using run by blast
qed

theorem main_validate_never_fatal_witness:
  "\<exists>w'. main_validate (\<lambda>bs. Some [''metadata.json'', ''symbols/x.kicad_sym''])
       \<lparr>fs = Dir [(''out.zip'', File [])], stdout = []\<rparr> [''out.zip''] ''v1.0.0'' = (Inr (), w') \<and>
     fs w' = Dir [(''out.zip'', File [])] \<and>
     ''  WARNING: Missing required directory: footprints/'' \<in> set (stdout w')"
  using main_validate_never_fatal
    [where namelist = "\<lambda>bs. Some [''metadata.json'', ''symbols/x.kicad_sym'']"
       and w = "\<lparr>fs = Dir [(''out.zip'', File [])], stdout = []\<rparr>"
       and output_zip = "[''out.zip'']" and tag = "''v1.0.0''" and content = "[]"
       and names = "[''metadata.json'', ''symbols/x.kicad_sym'']"]
  by (simp add: read_bytes_def)

section \<open>Properties of the directory walk\<close>

lemma quiet_platform_fields [simp]:
  "stat_error quiet_platform p = None" "scandir_error quiet_platform p = None"
  "\<not> is_symlink quiet_platform p" "scan_rank quiet_platform p nm = 0"
  "st_mtime quiet_platform p = 1700000000" "st_mode quiet_platform p = 33188"
  "zip_error quiet_platform zf p m = (if zm_mtime m < 315532800 then Some ValueError else None)"
  "zip_self quiet_platform ms = []"
  "zip_encode quiet_platform ms = concat (map zm_data ms)"
  "zip_close_error quiet_platform ms = None"
  by (simp_all add: quiet_platform_def)

lemma calm_below_quiet [simp]: "calm_below quiet_platform d"
  by (simp add: calm_below_def)

lemma resolve_append:
  "resolve t (p @ q) = (case resolve t p of Inl e \<Rightarrow> Inl e | Inr n \<Rightarrow> resolve n q)"
  by (induction t p rule: resolve.induct) (auto split: option.splits)

lemma wf_node_resolve: "wf_node t \<Longrightarrow> resolve t p = Inr n \<Longrightarrow> wf_node n"
proof (induction t p rule: resolve.induct)
  case (2 es c p)
  then obtain ch where ch: "map_of es c = Some ch" and r: "resolve ch p = Inr n"
    by (auto split: option.splits)
  from ch have "(c, ch) \<in> set es" by (rule map_of_SomeD)
  with "2.prems"(1) have "wf_node ch" by auto
  with "2.IH"[OF ch] r show ?case by simp
qed simp_all

lemma resolve_File [simp]: "q \<noteq> [] \<Longrightarrow> resolve (File v) q = Inl NotADirectoryError"
  by (cases q) simp_all

lemma resolve_Special [simp]: "q \<noteq> [] \<Longrightarrow> resolve Special q = Inl NotADirectoryError"
  by (cases q) simp_all

lemma file_at_resolve: "file_at t p \<longleftrightarrow> (\<exists>bs. resolve t p = Inr (File bs))"
  by (auto simp: file_at_def split: sum.splits node.splits)

lemma dir_at_resolve: "dir_at t p \<longleftrightarrow> (\<exists>es. resolve t p = Inr (Dir es))"
  by (auto simp: dir_at_def split: sum.splits node.splits)

lemma is_file_True: "is_file os t p = Inr True \<Longrightarrow> file_at t p \<and> stat_error os p = None"
  by (auto simp: is_file_def split: option.splits)

lemma is_dir_True: "is_dir os t p = Inr True \<Longrightarrow> dir_at t p \<and> stat_error os p = None"
  by (auto simp: is_dir_def split: option.splits)

lemma walk_then_left: "walk_then (xs, None) w = (xs @ fst w, snd w)"
  by (cases w) simp

lemma walk_concat_Nil [simp]: "walk_concat [] = ([], None)"
  by (simp add: walk_concat_def)

lemma walk_concat_Cons: "walk_concat (w # ws) = walk_then w (walk_concat ws)"
  by (simp add: walk_concat_def)

lemma walk_concat_ok: "snd (walk_concat ws) = None \<longleftrightarrow> (\<forall>w\<in>set ws. snd w = None)"
proof (induction ws)
  case Nil
  then show ?case by simp
next
  case (Cons w ws)
  obtain xs e where w: "w = (xs, e)" by (cases w)
  show ?case
  proof (cases e)
    case None
    with w Cons show ?thesis by (simp add: walk_concat_Cons walk_then_left)
  next
    case (Some a)
    with w show ?thesis by (simp add: walk_concat_Cons)
  qed
qed

lemma walk_concat_paths:
  "\<forall>w\<in>set ws. snd w = None \<Longrightarrow> fst (walk_concat ws) = concat (map fst ws)"
proof (induction ws)
  case Nil
  then show ?case by simp
next
  case (Cons w ws)
  then obtain xs where w: "w = (xs, None)" by (cases w) auto
  with Cons show ?case by (simp add: walk_concat_Cons walk_then_left)
qed

lemma walk_concat_mem:
  "x \<in> set (fst (walk_concat ws)) \<Longrightarrow> \<exists>w\<in>set ws. x \<in> set (fst w)"
proof (induction ws)
  case Nil
  then show ?case by simp
next
  case (Cons w ws)
  obtain xs e where w: "w = (xs, e)" by (cases w)
  show ?case
  proof (cases e)
    case None
    with w Cons show ?thesis by (auto simp: walk_concat_Cons walk_then_left)
  next
    case (Some a)
    with w Cons.prems show ?thesis by (simp add: walk_concat_Cons)
  qed
qed

lemma rglob_star_Dir:
  assumes "scandir_error os d = None"
  shows "rglob_star os d (Dir es) =
     (map (\<lambda>e. d @ [fst e]) (sort_key (\<lambda>e. scan_rank os d (fst e)) es)
        @ fst (walk_concat (map (\<lambda>e. if is_symlink os (d @ [fst e]) then ([], None)
                          else rglob_star os (d @ [fst e]) (snd e))
                     (sort_key (\<lambda>e. scan_rank os d (fst e)) es))),
      snd (walk_concat (map (\<lambda>e. if is_symlink os (d @ [fst e]) then ([], None)
                          else rglob_star os (d @ [fst e]) (snd e))
                     (sort_key (\<lambda>e. scan_rank os d (fst e)) es))))"
  using assms by (simp add: walk_then_left Let_def)

lemma rglob_star_ok: "snd (rglob_star os d n) = None \<longleftrightarrow> walk_ok os d n"
proof (induction os d n rule: rglob_star.induct)
  case (1 os d es)
  show ?case
  proof (cases "scandir_error os d")
    case (Some e)
    then show ?thesis by simp
  next
    case None
    define g where "g = (\<lambda>e. if is_symlink os (d @ [fst e]) then ([], None)
                   else rglob_star os (d @ [fst e]) (snd e))"
    have ih: "snd (g e) = None \<longleftrightarrow> is_symlink os (d @ [fst e]) \<or> walk_ok os (d @ [fst e]) (snd e)"
      if "e \<in> set es" for e
      using "1.IH"[OF None refl, of e] that by (simp add: g_def)
    have "snd (rglob_star os d (Dir es)) = None \<longleftrightarrow>
        (\<forall>w\<in>set (map g (sort_key (\<lambda>e. scan_rank os d (fst e)) es)). snd w = None)"
      unfolding rglob_star_Dir[OF None] g_def by (simp only: snd_conv walk_concat_ok)
    also have "\<dots> \<longleftrightarrow> (\<forall>e\<in>set es. snd (g e) = None)"
      by simp
    also have "\<dots> \<longleftrightarrow> (\<forall>e\<in>set es. is_symlink os (d @ [fst e]) \<or> walk_ok os (d @ [fst e]) (snd e))"
      using ih by blast
    finally show ?thesis using None by simp
  qed
qed simp_all

lemma sum_list_sort_key:
  fixes f :: "'a \<Rightarrow> 'b multiset"
  shows "sum_list (map f (sort_key k xs)) = sum_list (map f xs)"
proof -
  have "mset (map f (sort_key k xs)) = mset (map f xs)" by simp
  then show ?thesis by (metis sum_mset_sum_list)
qed

lemma rglob_star_mset:
  "walk_ok os d n \<Longrightarrow> mset (fst (rglob_star os d n)) = mset (walk_paths os d n)"
proof (induction os d n rule: rglob_star.induct)
  case (1 os d es)
  show ?case
  proof (cases "scandir_error os d")
    case (Some e)
    then show ?thesis by simp
  next
    case None
    define ents where "ents = sort_key (\<lambda>e. scan_rank os d (fst e)) es"
    define g where "g = (\<lambda>e. if is_symlink os (d @ [fst e]) then ([], None)
                   else rglob_star os (d @ [fst e]) (snd e))"
    define h where "h = (\<lambda>e. if is_symlink os (d @ [fst e]) then []
                   else walk_paths os (d @ [fst e]) (snd e))"
    from "1.prems" None have ok: "\<forall>e\<in>set es. is_symlink os (d @ [fst e]) \<or> walk_ok os (d @ [fst e]) (snd e)"
      by simp
    have sub: "mset (fst (g e)) = mset (h e) \<and> snd (g e) = None" if "e \<in> set es" for e
      using "1.IH"[OF None refl, of e] that ok by (auto simp: rglob_star_ok g_def h_def)
    have "\<forall>w\<in>set (map g ents). snd w = None" using sub by (simp add: ents_def)
    then have "fst (walk_concat (map g ents)) = concat (map fst (map g ents))"
      by (rule walk_concat_paths)
    then have "mset (fst (walk_concat (map g ents))) = sum_list (map (\<lambda>e. mset (fst (g e))) ents)"
      by (simp add: mset_concat comp_def)
    also have "\<dots> = sum_list (map (\<lambda>e. mset (fst (g e))) es)"
      unfolding ents_def by (rule sum_list_sort_key)
    also have "\<dots> = sum_list (map (\<lambda>e. mset (h e)) es)"
      using sub by (intro arg_cong[where f = sum_list] map_cong) auto
    also have "\<dots> = mset (concat (map h es))"
      by (simp add: mset_concat comp_def)
    finally have rest: "mset (fst (walk_concat (map g ents))) = mset (concat (map h es))" .
    have "mset (map (\<lambda>e. d @ [fst e]) ents) = mset (map (\<lambda>e. d @ [fst e]) es)"
      by (simp add: ents_def)
    with rest have "mset (fst (rglob_star os d (Dir es))) =
        mset (map (\<lambda>e. d @ [fst e]) es @ concat (map h es))"
      unfolding rglob_star_Dir[OF None] by (simp add: ents_def g_def)
    with None show ?thesis by (simp add: h_def)
  qed
qed simp_all

lemma rglob_star_below:
  "x \<in> set (fst (rglob_star os d n)) \<Longrightarrow> \<exists>q. q \<noteq> [] \<and> x = d @ q"
proof (induction os d n arbitrary: x rule: rglob_star.induct)
  case (1 os d es)
  show ?case
  proof (cases "scandir_error os d")
    case (Some e)
    with "1.prems" show ?thesis by simp
  next
    case None
    define g where "g = (\<lambda>e. if is_symlink os (d @ [fst e]) then ([], None)
                   else rglob_star os (d @ [fst e]) (snd e))"
    from "1.prems" have "x \<in> set (map (\<lambda>e. d @ [fst e]) (sort_key (\<lambda>e. scan_rank os d (fst e)) es))
        \<or> x \<in> set (fst (walk_concat (map g (sort_key (\<lambda>e. scan_rank os d (fst e)) es))))"
      unfolding rglob_star_Dir[OF None] g_def by simp
    then show ?thesis
    proof
      assume "x \<in> set (map (\<lambda>e. d @ [fst e]) (sort_key (\<lambda>e. scan_rank os d (fst e)) es))"
      then show ?thesis by auto
    next
      assume "x \<in> set (fst (walk_concat (map g (sort_key (\<lambda>e. scan_rank os d (fst e)) es))))"
      from walk_concat_mem[OF this] obtain e where e: "e \<in> set es" and x: "x \<in> set (fst (g e))"
        by auto
      then have ns: "\<not> is_symlink os (d @ [fst e])" by (auto simp: g_def split: if_splits)
      with x have "x \<in> set (fst (rglob_star os (d @ [fst e]) (snd e)))" by (simp add: g_def)
      from "1.IH"[OF None refl _ ns this] e obtain q where "q \<noteq> []" "x = (d @ [fst e]) @ q"
        by auto
      then show ?thesis by (intro exI[of _ "fst e # q"]) simp
    qed
  qed
qed simp_all

lemma rglob_below: "x \<in> set (fst (rglob os t d)) \<Longrightarrow> \<exists>q. q \<noteq> [] \<and> x = d @ q"
  by (auto simp: rglob_def dest: rglob_star_below split: sum.splits bool.splits)

lemma tree_paths_Dir_mem:
  "q \<in> set (tree_paths (Dir es)) \<longleftrightarrow>
     (\<exists>e\<in>set es. q = [fst e] \<or> (\<exists>q'\<in>set (tree_paths (snd e)). q = fst e # q'))"
  by auto

lemma tree_paths_mem:
  "wf_node t \<Longrightarrow> q \<in> set (tree_paths t) \<longleftrightarrow> q \<noteq> [] \<and> (\<exists>n. resolve t q = Inr n)"
proof (induction t arbitrary: q rule: tree_paths.induct)
  case (1 es)
  from "1.prems" have dist: "distinct (map fst es)" and wfc: "\<And>e. e \<in> set es \<Longrightarrow> wf_node (snd e)"
    by auto
  show ?case
  proof
    assume "q \<in> set (tree_paths (Dir es))"
    then obtain e where e: "e \<in> set es"
      and q: "q = [fst e] \<or> (\<exists>q'\<in>set (tree_paths (snd e)). q = fst e # q')"
      unfolding tree_paths_Dir_mem by blast
    from e dist have m: "map_of es (fst e) = Some (snd e)" by simp
    from q show "q \<noteq> [] \<and> (\<exists>n. resolve (Dir es) q = Inr n)"
    proof
      assume "q = [fst e]"
      with m show ?thesis by simp
    next
      assume "\<exists>q'\<in>set (tree_paths (snd e)). q = fst e # q'"
      then obtain q' where q': "q' \<in> set (tree_paths (snd e))" "q = fst e # q'" by blast
      with "1.IH"[OF e wfc[OF e], of q'] m show ?thesis by simp
    qed
  next
    assume a: "q \<noteq> [] \<and> (\<exists>n. resolve (Dir es) q = Inr n)"
    then obtain c p n where q: "q = c # p" and r: "resolve (Dir es) (c # p) = Inr n"
      by (cases q) auto
    then obtain ch where ch: "map_of es c = Some ch" and rc: "resolve ch p = Inr n"
      by (auto split: option.splits)
    from ch have e: "(c, ch) \<in> set es" by (rule map_of_SomeD)
    show "q \<in> set (tree_paths (Dir es))"
    proof (cases "p = []")
      case True
      with q e show ?thesis unfolding tree_paths_Dir_mem by force
    next
      case False
      with "1.IH"[OF e, of p] wfc[OF e] rc have "p \<in> set (tree_paths ch)" by auto
      with q e show ?thesis unfolding tree_paths_Dir_mem by force
    qed
  qed
qed auto

lemma tree_paths_nonempty: "[] \<notin> set (tree_paths t)"
  by (cases t) auto

lemma distinct_subdirs:
  assumes "distinct (map fst es)"
    and "\<And>e. e \<in> set es \<Longrightarrow> distinct (tree_paths (snd e))"
  shows "distinct (concat (map (\<lambda>e. map ((#) (fst e)) (tree_paths (snd e))) es))"
  using assms
proof (induction es)
  case Nil
  then show ?case by simp
next
  case (Cons e es)
  have "distinct (map ((#) (fst e)) (tree_paths (snd e)))"
    using Cons.prems(2)[of e] by (simp add: distinct_map)
  moreover have "distinct (concat (map (\<lambda>e. map ((#) (fst e)) (tree_paths (snd e))) es))"
    using Cons by simp
  moreover have "set (map ((#) (fst e)) (tree_paths (snd e))) \<inter>
      set (concat (map (\<lambda>e. map ((#) (fst e)) (tree_paths (snd e))) es)) = {}"
    using Cons.prems(1) by auto
  ultimately show ?case by simp
qed

lemma tree_paths_distinct: "wf_node t \<Longrightarrow> distinct (tree_paths t)"
proof (induction t rule: tree_paths.induct)
  case (1 es)
  from "1.prems" have dist: "distinct (map fst es)" and wfc: "\<And>e. e \<in> set es \<Longrightarrow> wf_node (snd e)"
    by auto
  have a: "distinct (map (\<lambda>e. [fst e]) es)"
    using dist by (simp add: distinct_map inj_on_def)
  have b: "distinct (concat (map (\<lambda>e. map ((#) (fst e)) (tree_paths (snd e))) es))"
    by (rule distinct_subdirs[OF dist]) (simp add: "1.IH" wfc)
  have c: "set (map (\<lambda>e. [fst e]) es) \<inter>
      set (concat (map (\<lambda>e. map ((#) (fst e)) (tree_paths (snd e))) es)) = {}"
    using tree_paths_nonempty by auto
  from a b c show ?case by simp
qed auto

lemma calm_walk_ok:
  "(\<And>p. prefix d p \<Longrightarrow> scandir_error os p = None) \<Longrightarrow> walk_ok os d n"
proof (induction os d n rule: walk_ok.induct)
  case (1 os d es)
  have d: "scandir_error os d = None" using "1.prems"[of d] by simp
  have "walk_ok os (d @ [fst e]) (snd e)" if "e \<in> set es" for e
  proof (rule "1.IH"[OF d that])
    fix p assume "prefix (d @ [fst e]) p"
    then have "prefix d p" by (rule append_prefixD)
    then show "scandir_error os p = None" by (rule "1.prems")
  qed
  with d show ?case by simp
qed simp_all

lemma calm_walk_paths:
  "(\<And>p. prefix d p \<Longrightarrow> scandir_error os p = None \<and> (p \<noteq> d \<longrightarrow> \<not> is_symlink os p)) \<Longrightarrow>
   walk_paths os d n = map ((@) d) (tree_paths n)"
proof (induction os d n rule: walk_paths.induct)
  case (1 os d es)
  have d: "scandir_error os d = None" using "1.prems"[of d] by simp
  have nl: "\<not> is_symlink os (d @ [c])" for c
    using "1.prems"[of "d @ [c]"] by simp
  define h where "h = (\<lambda>e. walk_paths os (d @ [fst e]) (snd e))"
  define k where "k = (\<lambda>e. map ((@) d) (map ((#) (fst e)) (tree_paths (snd e))))"
  have "h e = k e" if "e \<in> set es" for e
  proof -
    have "walk_paths os (d @ [fst e]) (snd e) = map ((@) (d @ [fst e])) (tree_paths (snd e))"
    proof (rule "1.IH"[OF d that])
      show "\<not> is_symlink os (d @ [fst e])" by (rule nl)
    next
      fix p assume p: "prefix (d @ [fst e]) p"
      then have pd: "prefix d p" by (rule append_prefixD)
      from p have "p \<noteq> d" by (auto simp: prefix_def)
      with "1.prems"[OF pd]
      show "scandir_error os p = None \<and> (p \<noteq> d @ [fst e] \<longrightarrow> \<not> is_symlink os p)" by simp
    qed
    then show ?thesis by (simp add: h_def k_def)
  qed
  then have hk: "map h es = map k es" by simp
  have "walk_paths os d (Dir es) = map (\<lambda>e. d @ [fst e]) es @ concat (map h es)"
    using d nl by (simp add: h_def)
  also have "\<dots> = map (\<lambda>e. d @ [fst e]) es @ concat (map k es)" by (simp only: hk)
  also have "\<dots> = map ((@) d) (tree_paths (Dir es))"
    by (simp add: k_def map_concat comp_def)
  finally show ?case .
qed simp_all

lemma file_size_not_file: "\<not> file_at t p \<Longrightarrow> file_size t p = 0"
  by (auto simp: file_at_def file_size_def split: sum.splits node.splits)

lemma add_file_sizes_eq:
  "\<forall>x\<in>set xs. stat_error os x = None \<Longrightarrow>
   add_file_sizes os t xs tot = Inr (tot + sum_list (map (file_size t) xs))"
proof (induction xs arbitrary: tot)
  case Nil
  then show ?case by simp
next
  case (Cons x xs)
  then have s: "stat_error os x = None" by simp
  show ?case
  proof (cases "file_at t x")
    case True
    then obtain bs where "resolve t x = Inr (File bs)"
      by (auto simp: file_at_def split: sum.splits node.splits)
    with True s Cons show ?thesis
      by (simp add: is_file_def st_size_def file_size_def)
  next
    case False
    with s Cons show ?thesis by (simp add: is_file_def file_size_not_file)
  qed
qed

lemma calm_rglob:
  assumes "calm_below os d" and "resolve t d = Inr (Dir es)"
  shows "snd (rglob os t d) = None \<and>
     mset (fst (rglob os t d)) = mset (map ((@) d) (tree_paths (Dir es)))"
proof -
  from assms(1) have s: "stat_error os d = None" by (simp add: calm_below_def)
  from assms(1) have sc: "\<And>p. prefix d p \<Longrightarrow> scandir_error os p = None"
    by (simp add: calm_below_def)
  from assms(1) have ln: "\<And>p. prefix d p \<Longrightarrow>
      scandir_error os p = None \<and> (p \<noteq> d \<longrightarrow> \<not> is_symlink os p)"
    by (simp add: calm_below_def)
  have r: "rglob os t d = rglob_star os d (Dir es)"
    using s assms(2) by (simp add: rglob_def is_dir_def dir_at_def)
  have ok: "walk_ok os d (Dir es)" using sc by (rule calm_walk_ok)
  from ok have e: "snd (rglob_star os d (Dir es)) = None" by (simp only: rglob_star_ok)
  have "mset (fst (rglob_star os d (Dir es))) = mset (walk_paths os d (Dir es))"
    using ok by (rule rglob_star_mset)
  also have "walk_paths os d (Dir es) = map ((@) d) (tree_paths (Dir es))"
    using ln by (rule calm_walk_paths)
  finally show ?thesis using e by (simp only: r)
qed

lemma sum_list_mset_cong:
  fixes f :: "'a \<Rightarrow> nat"
  shows "mset xs = mset ys \<Longrightarrow> sum_list (map f xs) = sum_list (map f ys)"
proof -
  assume "mset xs = mset ys"
  then have "mset (map f xs) = mset (map f ys)" by (metis mset_map)
  then show ?thesis by (metis sum_mset_sum_list)
qed

lemma rglob_calm_stat:
  assumes "calm_below os d" and "x \<in> set (fst (rglob os t d))"
  shows "stat_error os x = None"
proof -
  from rglob_below[OF assms(2)] obtain q where "x = d @ q" by blast
  with assms(1) show ?thesis by (simp add: calm_below_def)
qed

lemma add_install_sizes_eq:
  "\<forall>d\<in>set ds. calm_below os d \<Longrightarrow>
   add_install_sizes os t ds tot = Inr (tot + sum_list (map (input_size t) ds))"
proof (induction ds arbitrary: tot)
  case Nil
  then show ?case by simp
next
  case (Cons d ds)
  then have calm: "calm_below os d" by simp
  then have s: "stat_error os d = None" by (simp add: calm_below_def)
  from Cons have ih: "\<And>tot. add_install_sizes os t ds tot = Inr (tot + sum_list (map (input_size t) ds))"
    by simp
  show ?case
  proof (cases "resolve t d")
    case (Inl e)
    then have "input_size t d = 0" by (simp add: input_size_def file_size_def)
    with Inl s ih show ?thesis
      by (simp add: is_dir_def is_file_def dir_at_def file_at_def)
  next
    case (Inr n)
    show ?thesis
    proof (cases n)
      case (File bs)
      with Inr have "input_size t d = length bs" by (simp add: input_size_def file_size_def)
      with File Inr s ih show ?thesis
        by (simp add: is_dir_def is_file_def dir_at_def file_at_def st_size_def)
    next
      case Special
      with Inr have "input_size t d = 0" by (simp add: input_size_def file_size_def)
      with Special Inr s ih show ?thesis
        by (simp add: is_dir_def is_file_def dir_at_def file_at_def)
    next
      case (Dir es)
      with Inr have r: "resolve t d = Inr (Dir es)" by simp
      from calm_rglob[OF calm r] have e: "snd (rglob os t d) = None"
        and m: "mset (fst (rglob os t d)) = mset (map ((@) d) (tree_paths (Dir es)))" by simp_all
      have "\<forall>x\<in>set (fst (rglob os t d)). stat_error os x = None"
        using rglob_calm_stat[OF calm] by blast
      then have a: "add_file_sizes os t (fst (rglob os t d)) tot
          = Inr (tot + sum_list (map (file_size t) (fst (rglob os t d))))"
        by (rule add_file_sizes_eq)
      have "sum_list (map (file_size t) (fst (rglob os t d))) = input_size t d"
        using sum_list_mset_cong[OF m, of "file_size t"] r by (simp add: input_size_def)
      with a e s r ih show ?thesis
        by (simp add: is_dir_def dir_at_def)
    qed
  qed
qed

lemma compute_install_size_eq:
  "\<forall>d\<in>set ds. calm_below os d \<Longrightarrow>
   compute_install_size os t ds = Inr (sum_list (map (input_size t) ds))"
  by (simp add: compute_install_size_def add_install_sizes_eq)

lemma reachable_files_Cons:
  "reachable_files t (d # ds) = reachable_files t [d] \<union> reachable_files t ds"
  by (auto simp: reachable_files_def)

lemma reachable_files_Nil [simp]: "reachable_files t [] = {}"
  by (simp add: reachable_files_def)

lemma file_at_below:
  assumes "file_at t (d @ q)"
  shows "(dir_at t d \<and> q \<noteq> []) \<or> (file_at t d \<and> q = [])"
proof (cases "resolve t d")
  case (Inl e)
  with assms show ?thesis by (simp add: file_at_resolve resolve_append)
next
  case (Inr n)
  with assms show ?thesis
    by (cases n; cases "q = []") (auto simp: file_at_resolve dir_at_resolve resolve_append)
qed

lemma reachable_single:
  assumes "wf_node t"
  shows "finite (reachable_files t [d]) \<and>
     sum (file_size t) (reachable_files t [d]) = input_size t d"
proof (cases "dir_at t d")
  case True
  then obtain es where r: "resolve t d = Inr (Dir es)" by (auto simp: dir_at_resolve)
  with assms have wf: "wf_node (Dir es)" by (rule wf_node_resolve)
  let ?xs = "map ((@) d) (tree_paths (Dir es))"
  have mem: "x \<in> set ?xs \<longleftrightarrow> (\<exists>q. x = d @ q \<and> q \<noteq> [] \<and> (\<exists>n. resolve t (d @ q) = Inr n))" for x
  proof -
    have "x \<in> set ?xs \<longleftrightarrow> (\<exists>q\<in>set (tree_paths (Dir es)). x = d @ q)" by auto
    also have "\<dots> \<longleftrightarrow> (\<exists>q. x = d @ q \<and> q \<noteq> [] \<and> (\<exists>n. resolve (Dir es) q = Inr n))"
      using tree_paths_mem[OF wf] by blast
    also have "\<dots> \<longleftrightarrow> (\<exists>q. x = d @ q \<and> q \<noteq> [] \<and> (\<exists>n. resolve t (d @ q) = Inr n))"
      using r by (simp add: resolve_append)
    finally show ?thesis .
  qed
  have dist: "distinct ?xs"
    using tree_paths_distinct[OF wf] by (simp add: distinct_map inj_on_def del: tree_paths.simps)
  have sub: "reachable_files t [d] \<subseteq> set ?xs"
  proof
    fix p assume "p \<in> reachable_files t [d]"
    then obtain q where p: "p = d @ q" and f: "file_at t (d @ q)"
      by (auto simp: reachable_files_def prefix_def)
    from file_at_below[OF f] True have "q \<noteq> []"
      by (auto simp: file_at_resolve dir_at_resolve)
    with p f show "p \<in> set ?xs"
      unfolding mem by (auto simp: file_at_resolve)
  qed
  have zero: "\<forall>x\<in>set ?xs - reachable_files t [d]. file_size t x = 0"
  proof
    fix x assume x: "x \<in> set ?xs - reachable_files t [d]"
    then have "prefix d x" by auto
    with x have "\<not> file_at t x" by (simp add: reachable_files_def)
    then show "file_size t x = 0" by (rule file_size_not_file)
  qed
  have "sum (file_size t) (reachable_files t [d]) = sum (file_size t) (set ?xs)"
    by (rule sum.mono_neutral_left[OF _ sub zero]) simp
  also have "\<dots> = sum_list (map (file_size t) ?xs)"
    using dist by (simp only: sum_list_distinct_conv_sum_set)
  also have "\<dots> = input_size t d" using r by (simp add: input_size_def)
  finally show ?thesis
    using sub by (auto intro: finite_subset)
next
  case False
  have "reachable_files t [d] = (if file_at t d then {d} else {})"
  proof (rule set_eqI)
    fix p
    show "p \<in> reachable_files t [d] \<longleftrightarrow> p \<in> (if file_at t d then {d} else {})"
    proof
      assume "p \<in> reachable_files t [d]"
      then obtain q where p: "p = d @ q" and f: "file_at t (d @ q)"
        by (auto simp: reachable_files_def prefix_def)
      from file_at_below[OF f] False p show "p \<in> (if file_at t d then {d} else {})"
        by auto
    next
      assume "p \<in> (if file_at t d then {d} else {})"
      then show "p \<in> reachable_files t [d]"
        by (auto simp: reachable_files_def split: if_splits)
    qed
  qed
  moreover from False have "input_size t d = file_size t d"
    by (auto simp: input_size_def dir_at_resolve split: sum.splits node.splits)
  ultimately show ?thesis
    by (auto simp: file_size_not_file)
qed

lemma reachable_independent:
  assumes "wf_node t" and "independent ds"
  shows "finite (reachable_files t ds) \<and>
     sum (file_size t) (reachable_files t ds) = sum_list (map (input_size t) ds)"
  using assms(2)
proof (induction ds)
  case Nil
  then show ?case by simp
next
  case (Cons d ds)
  then have ih: "finite (reachable_files t ds)"
    "sum (file_size t) (reachable_files t ds) = sum_list (map (input_size t) ds)"
    by simp_all
  have disj: "reachable_files t [d] \<inter> reachable_files t ds = {}"
  proof (rule ccontr)
    assume "reachable_files t [d] \<inter> reachable_files t ds \<noteq> {}"
    then obtain p d' where "prefix d p" "d' \<in> set ds" "prefix d' p"
      by (auto simp: reachable_files_def)
    then have "prefix d d' \<or> prefix d' d" using prefix_same_cases by blast
    with Cons.prems \<open>d' \<in> set ds\<close> show False by auto
  qed
  from reachable_single[OF assms(1), of d] ih disj show ?case
    by (simp add: reachable_files_Cons[of t d ds] sum.union_disjoint)
qed

lemma input_size_missing: "\<not> path_exists t d \<Longrightarrow> input_size t d = 0"
  by (auto simp: path_exists_def input_size_def file_size_def split: sum.splits)

lemma sum_list_filter_exists:
  "sum_list (map (input_size t) (filter (path_exists t) ds)) = sum_list (map (input_size t) ds)"
  by (induction ds) (simp_all add: input_size_missing)

text \<open>
  Claim C2 (as amended).  Take a file system whose directories list no name twice, and
  inputs at and below which no call of the operating system fails other than for a path
  that is missing, and below which there is no symbolic link.  Then
  \<open>compute_install_size\<close> raises no error and returns the sum, over the input list, of
  the total size of the regular files reachable from each input; a file reachable from
  several inputs is counted once for each of them.  When no input equals another or lies
  below another, that is the sum of the sizes of all regular files reachable from the
  inputs, each path counted once.  Inputs that do not exist add nothing, and the result
  does not depend on the order of the list.
\<close>
theorem compute_install_size_sum:
  assumes "wf_node t" and "\<forall>d\<in>set ds. calm_below os d"
  shows "compute_install_size os t ds =
       Inr (\<Sum>d\<leftarrow>ds. sum (file_size t) (reachable_files t [d])) \<and>
     (independent ds \<longrightarrow>
        compute_install_size os t ds = Inr (sum (file_size t) (reachable_files t ds))) \<and>
     compute_install_size os t (filter (path_exists t) ds) = compute_install_size os t ds \<and>
     (\<forall>ds'. mset ds' = mset ds \<longrightarrow> compute_install_size os t ds' = compute_install_size os t ds)"
proof (intro conjI allI impI)
  have "(\<lambda>d. sum (file_size t) (reachable_files t [d])) = input_size t"
    by (rule ext) (simp add: reachable_single[OF assms(1)])
  then show "compute_install_size os t ds =
       Inr (\<Sum>d\<leftarrow>ds. sum (file_size t) (reachable_files t [d]))"
    by (simp add: compute_install_size_eq[OF assms(2)])
next
  assume "independent ds"
  from reachable_independent[OF assms(1) this]
  show "compute_install_size os t ds = Inr (sum (file_size t) (reachable_files t ds))"
    by (simp add: compute_install_size_eq[OF assms(2)])
next
  have "\<forall>d\<in>set (filter (path_exists t) ds). calm_below os d" using assms(2) by simp
  then show "compute_install_size os t (filter (path_exists t) ds) = compute_install_size os t ds"
    by (simp add: compute_install_size_eq assms(2) sum_list_filter_exists)
next
  fix ds' :: "path list"
  assume m: "mset ds' = mset ds"
  then have "set ds' = set ds" by (rule mset_eq_setD)
  with assms(2) have c: "\<forall>d\<in>set ds'. calm_below os d" by simp
  from m have "sum_list (map (input_size t) ds') = sum_list (map (input_size t) ds)"
    by (rule sum_list_mset_cong)
  then show "compute_install_size os t ds' = compute_install_size os t ds"
    by (simp add: compute_install_size_eq[OF assms(2)] compute_install_size_eq[OF c])
qed

theorem compute_install_size_sum_witness:
  "wf_node (Dir [(''symbols'', Dir [(''x'', File [1, 2, 3])]), (''metadata.json'', File [7])]) \<and>
   calm_below quiet_platform [''metadata.json''] \<and> calm_below quiet_platform [''symbols''] \<and>
   calm_below quiet_platform [''missing''] \<and>
   independent [[''metadata.json''], [''symbols''], [''missing'']] \<and>
   compute_install_size quiet_platform
     (Dir [(''symbols'', Dir [(''x'', File [1, 2, 3])]), (''metadata.json'', File [7])])
     [[''metadata.json''], [''symbols''], [''missing'']] = Inr 4 \<and>
   sum (file_size (Dir [(''symbols'', Dir [(''x'', File [1, 2, 3])]), (''metadata.json'', File [7])]))
     (reachable_files
        (Dir [(''symbols'', Dir [(''x'', File [1, 2, 3])]), (''metadata.json'', File [7])])
        [[''metadata.json''], [''symbols''], [''missing'']]) = 4 \<and>
   compute_install_size quiet_platform
     (Dir [(''symbols'', Dir [(''x'', File [1, 2, 3])]), (''metadata.json'', File [7])])
     [[''missing''], [''symbols''], [''metadata.json'']] = Inr 4"
proof -
  let ?t = "Dir [(''symbols'', Dir [(''x'', File [1, 2, 3])]), (''metadata.json'', File [7])]"
  let ?ds = "[[''metadata.json''], [''symbols''], [''missing'']]"
  have wf: "wf_node ?t" by simp
  have calm: "\<forall>d\<in>set ?ds. calm_below quiet_platform d" by simp
  have ind: "independent ?ds" by simp
  have c: "compute_install_size quiet_platform ?t ?ds = Inr 4"
    by (simp add: compute_install_size_def is_dir_def is_file_def dir_at_def file_at_def
        rglob_def st_size_def walk_concat_def)
  note t = compute_install_size_sum[OF wf calm]
  from t ind c have s: "sum (file_size ?t) (reachable_files ?t ?ds) = 4" by simp
  have "mset [[''missing''], [''symbols''], [''metadata.json'']] = mset ?ds"
    by (simp add: add.commute)
  with t have "compute_install_size quiet_platform ?t [[''missing''], [''symbols''], [''metadata.json'']]
      = compute_install_size quiet_platform ?t ?ds" by blast
  with wf calm ind c s show ?thesis by simp
qed

text \<open>
  With a directory and a file below it both in the list, the file is counted twice: the
  function returns 6 where the files reachable from the inputs have 3 bytes in all.
\<close>
theorem compute_install_size_overlap_counterexample:
  "compute_install_size quiet_platform (Dir [(''symbols'', Dir [(''x'', File [1, 2, 3])])])
     [[''symbols''], [''symbols'', ''x'']] = Inr 6 \<and>
   sum (file_size (Dir [(''symbols'', Dir [(''x'', File [1, 2, 3])])]))
     (reachable_files (Dir [(''symbols'', Dir [(''x'', File [1, 2, 3])])])
        [[''symbols''], [''symbols'', ''x'']]) = 3"
proof -
  let ?t = "Dir [(''symbols'', Dir [(''x'', File [1, 2, 3])])]"
  have c: "compute_install_size quiet_platform ?t [[''symbols''], [''symbols'', ''x'']] = Inr 6"
    by (simp add: compute_install_size_def is_dir_def is_file_def dir_at_def file_at_def
        rglob_def st_size_def walk_concat_def)
  have "reachable_files ?t [[''symbols''], [''symbols'', ''x'']] = reachable_files ?t [[''symbols'']]"
    by (auto simp: reachable_files_def prefix_def)
  moreover have "sum (file_size ?t) (reachable_files ?t [[''symbols'']]) = 3"
    using reachable_single[of ?t "[''symbols'']"] by (simp add: input_size_def file_size_def)
  ultimately show ?thesis using c by simp
qed

text \<open>
  Outside the conditions of the amended claim: the files below a linked directory are
  not counted, because \<open>rglob\<close> does not descend into it; and an error of \<open>stat\<close> that
  pathlib passes on (a name that is too long) ends the function.
\<close>

lemma compute_install_size_link_example:
  "compute_install_size (quiet_platform\<lparr>is_symlink := (\<lambda>p. p = [''symbols'', ''link''])\<rparr>)
     (Dir [(''symbols'', Dir [(''link'', Dir [(''x'', File [1, 2, 3])])])]) [[''symbols'']] = Inr 0 \<and>
   file_at (Dir [(''symbols'', Dir [(''link'', Dir [(''x'', File [1, 2, 3])])])])
     [''symbols'', ''link'', ''x'']"
  by (simp add: compute_install_size_def is_dir_def is_file_def dir_at_def file_at_def
      rglob_def st_size_def walk_concat_def quiet_platform_def)

lemma compute_install_size_oserror_example:
  "compute_install_size
     (quiet_platform\<lparr>stat_error := (\<lambda>p. if p = [''toolong''] then Some OSError else None)\<rparr>)
     (Dir []) [[''toolong'']] = Inl OSError"
  by (simp add: compute_install_size_def is_dir_def quiet_platform_def)

section \<open>Properties of the archive builder\<close>

lemma walk_ok_rank [simp]: "walk_ok (os\<lparr>scan_rank := r\<rparr>) d n = walk_ok os d n"
  by (induction os d n rule: walk_ok.induct) (auto split: option.splits)

lemma walk_paths_rank [simp]: "walk_paths (os\<lparr>scan_rank := r\<rparr>) d n = walk_paths os d n"
proof (induction os d n rule: walk_paths.induct)
  case (1 os d es)
  show ?case
  proof (cases "scandir_error os d")
    case None
    define f where "f = (\<lambda>e. if is_symlink os (d @ [fst e]) then []
                  else walk_paths (os\<lparr>scan_rank := r\<rparr>) (d @ [fst e]) (snd e))"
    define g where "g = (\<lambda>e. if is_symlink os (d @ [fst e]) then []
                  else walk_paths os (d @ [fst e]) (snd e))"
    have "map f es = map g es"
      using "1.IH"[OF None] by (intro map_cong) (auto simp: f_def g_def)
    then have "concat (map f es) = concat (map g es)" by (rule arg_cong)
    with None show ?thesis by (simp add: f_def g_def)
  qed simp
qed simp_all

lemma is_file_rank [simp]: "is_file (os\<lparr>scan_rank := r\<rparr>) t p = is_file os t p"
  by (simp add: is_file_def)

lemma is_dir_rank [simp]: "is_dir (os\<lparr>scan_rank := r\<rparr>) t p = is_dir os t p"
  by (simp add: is_dir_def)

lemma zf_write_rank [simp]:
  "zf_write (os\<lparr>scan_rank := r\<rparr>) t out zf p nm = zf_write os t out zf p nm"
  by (simp add: zf_write_def zip_add_def split: option.splits sum.splits node.splits)

lemma add_dir_files_rank [simp]:
  "add_dir_files (os\<lparr>scan_rank := r\<rparr>) t out root xs zf = add_dir_files os t out root xs zf"
  by (induction xs arbitrary: zf) (auto split: sum.splits bool.splits)

lemma sort_mset_eq:
  fixes xs ys :: "'a::linorder list"
  shows "mset xs = mset ys \<Longrightarrow> sort xs = sort ys"
  by (metis mset_sort properties_for_sort sorted_sort)

lemma rglob_walk:
  "snd (rglob os t d) = None \<longleftrightarrow>
     (case is_dir os t d of
        Inl e \<Rightarrow> False
      | Inr False \<Rightarrow> True
      | Inr True \<Rightarrow> (case resolve t d of Inr n \<Rightarrow> walk_ok os d n | Inl e \<Rightarrow> True))"
  by (auto simp: rglob_def rglob_star_ok split: sum.splits bool.splits)

lemma rglob_rank:
  "(snd (rglob (os\<lparr>scan_rank := r\<rparr>) t d) = None \<longleftrightarrow> snd (rglob os t d) = None) \<and>
   (snd (rglob os t d) = None \<longrightarrow>
      sort (fst (rglob (os\<lparr>scan_rank := r\<rparr>) t d)) = sort (fst (rglob os t d)))"
proof (intro conjI impI)
  show "snd (rglob (os\<lparr>scan_rank := r\<rparr>) t d) = None \<longleftrightarrow> snd (rglob os t d) = None"
    by (simp add: rglob_walk split: sum.splits bool.splits)
next
  assume ok: "snd (rglob os t d) = None"
  have "mset (fst (rglob (os\<lparr>scan_rank := r\<rparr>) t d)) = mset (fst (rglob os t d))"
  proof (cases "is_dir os t d")
    case (Inl e)
    then show ?thesis by (simp add: rglob_def)
  next
    case (Inr b)
    show ?thesis
    proof (cases "resolve t d")
      case (Inl e)
      with Inr show ?thesis by (simp add: rglob_def split: bool.splits)
    next
      case n: (Inr n)
      show ?thesis
      proof (cases b)
        case True
        with Inr n ok have w: "walk_ok os d n" by (simp add: rglob_walk)
        then have "walk_ok (os\<lparr>scan_rank := r\<rparr>) d n" by simp
        from rglob_star_mset[OF this] rglob_star_mset[OF w] True Inr n
        show ?thesis by (simp add: rglob_def)
      next
        case False
        with Inr show ?thesis by (simp add: rglob_def)
      qed
    qed
  qed
  then show "sort (fst (rglob (os\<lparr>scan_rank := r\<rparr>) t d)) = sort (fst (rglob os t d))"
    by (rule sort_mset_eq)
qed

lemma add_items_rank:
  "fst (add_items (os\<lparr>scan_rank := r\<rparr>) t out root items zf) = fst (add_items os t out root items zf) \<and>
   (snd (add_items (os\<lparr>scan_rank := r\<rparr>) t out root items zf) = None
      \<longleftrightarrow> snd (add_items os t out root items zf) = None)"
proof (induction items arbitrary: zf)
  case Nil
  then show ?case by simp
next
  case (Cons item items)
  let ?os2 = "os\<lparr>scan_rank := r\<rparr>"
  show ?case
  proof (cases "is_file os t item")
    case (Inl e)
    then show ?thesis by simp
  next
    case f: (Inr isf)
    show ?thesis
    proof (cases isf)
      case True
      with f Cons.IH show ?thesis by (auto split: sum.splits)
    next
      case nf: False
      show ?thesis
      proof (cases "is_dir os t item")
        case (Inl e)
        with f nf show ?thesis by simp
      next
        case d: (Inr isd)
        show ?thesis
        proof (cases isd)
          case False
          with f nf d Cons.IH show ?thesis by simp
        next
          case True
          note rk = rglob_rank[where os = os and r = r and t = t and d = item]
          show ?thesis
          proof (cases "snd (rglob os t item)")
            case (Some e)
            with rk obtain e2 where "snd (rglob ?os2 t item) = Some e2" by auto
            with Some f nf d True show ?thesis by simp
          next
            case None
            with rk have n2: "snd (rglob ?os2 t item) = None"
              and s: "sort (fst (rglob ?os2 t item)) = sort (fst (rglob os t item))" by simp_all
            obtain zf' e' where a: "add_dir_files os t out root (sort (fst (rglob os t item))) zf = (zf', e')"
              by (cases "add_dir_files os t out root (sort (fst (rglob os t item))) zf")
            show ?thesis
            proof (cases e')
              case (Some e)
              with a None n2 s f nf d True show ?thesis by simp
            next
              case ne: None
              with a None n2 s f nf d True Cons.IH[of zf'] show ?thesis by simp
            qed
          qed
        qed
      qed
    qed
  qed
qed

lemma create_zip_archive_rank:
  "snd (create_zip_archive (os\<lparr>scan_rank := r\<rparr>) t output_path root)
     = snd (create_zip_archive os t output_path root) \<and>
   read_bytes (snd (create_zip_archive (os\<lparr>scan_rank := r\<rparr>) t output_path root)) output_path
     = read_bytes (snd (create_zip_archive os t output_path root)) output_path \<and>
   (\<forall>p. fst (create_zip_archive os t output_path root) = Inr p \<longrightarrow>
        create_zip_archive (os\<lparr>scan_rank := r\<rparr>) t output_path root
          = create_zip_archive os t output_path root) \<and>
   (isl (fst (create_zip_archive (os\<lparr>scan_rank := r\<rparr>) t output_path root))
      \<longleftrightarrow> isl (fst (create_zip_archive os t output_path root)))"
proof -
  let ?os2 = "os\<lparr>scan_rank := r\<rparr>"
  have main: "snd (create_zip_archive ?os2 t output_path root)
       = snd (create_zip_archive os t output_path root) \<and>
     (\<forall>p. fst (create_zip_archive os t output_path root) = Inr p \<longrightarrow>
        fst (create_zip_archive ?os2 t output_path root) = Inr p) \<and>
     (isl (fst (create_zip_archive ?os2 t output_path root))
        \<longleftrightarrow> isl (fst (create_zip_archive os t output_path root)))"
  proof (cases "write_bytes t output_path []")
    case (Inl e)
    then show ?thesis by (simp add: create_zip_archive_def)
  next
    case (Inr t1)
    obtain zf e where a: "add_items os t1 output_path root (items_to_include root) [] = (zf, e)"
      by (cases "add_items os t1 output_path root (items_to_include root) []")
    obtain zf2 e2 where b: "add_items ?os2 t1 output_path root (items_to_include root) [] = (zf2, e2)"
      by (cases "add_items ?os2 t1 output_path root (items_to_include root) []")
    from add_items_rank[where os = os and r = r and t = t1 and out = output_path and root = root
        and items = "items_to_include root" and zf = "[]"] a b
    have eq: "zf2 = zf" "e2 = None \<longleftrightarrow> e = None" by simp_all
    show ?thesis
    proof (cases "write_bytes t1 output_path (zip_encode os zf)")
      case (Inl err)
      with Inr a b eq show ?thesis by (simp add: create_zip_archive_def)
    next
      case w: (Inr t2)
      with Inr a b eq show ?thesis
        by (cases e; cases e2; cases "zip_close_error os zf") (simp_all add: create_zip_archive_def)
    qed
  qed
  then show ?thesis by (simp add: prod_eq_iff)
qed

lemma dict_set_twice: "dict_set (dict_set kvs k v) k v' = dict_set kvs k v'"
  by (induction kvs) auto

lemma write_bytes_back:
  "write_bytes t p a = Inr t1 \<Longrightarrow> write_bytes t1 p b = Inr t2 \<Longrightarrow> write_bytes t2 p a = Inr t1"
proof (induction t p a arbitrary: t1 t2 rule: write_bytes.induct)
  case (4 es c p bs)
  show ?case
  proof (cases "map_of es c")
    case None
    with "4.prems"(1) have p: "p = []" and t1: "t1 = Dir (es @ [(c, File bs)])"
      by (auto split: if_splits)
    from None have m: "map_of (es @ [(c, File bs)]) c = Some (File bs)"
      by (simp add: map_add_def)
    with "4.prems"(2) p t1 have t2: "t2 = Dir (dict_set (es @ [(c, File bs)]) c (File b))"
      by auto
    from m have "dict_set (es @ [(c, File bs)]) c (File bs) = es @ [(c, File bs)]"
      by (rule dict_set_same)
    with p t1 t2 show ?thesis
      by (simp add: map_of_dict_set_same dict_set_twice)
  next
    case (Some ch)
    with "4.prems"(1) obtain ch1 where w1: "write_bytes ch p bs = Inr ch1"
      and t1: "t1 = Dir (dict_set es c ch1)" by (auto split: sum.splits)
    with "4.prems"(2) obtain ch2 where w2: "write_bytes ch1 p b = Inr ch2"
      and t2: "t2 = Dir (dict_set (dict_set es c ch1) c ch2)"
      by (auto simp: map_of_dict_set_same split: sum.splits)
    from "4.IH"[OF Some w1 w2] t1 t2 show ?thesis
      by (simp add: map_of_dict_set_same dict_set_twice)
  qed
qed auto

lemma write_bytes_again:
  "write_bytes t p a = Inr t1 \<Longrightarrow> \<exists>t2. write_bytes t1 p b = Inr t2"
proof (induction t p a arbitrary: t1 rule: write_bytes.induct)
  case (4 es c p bs)
  show ?case
  proof (cases "map_of es c")
    case None
    with "4.prems"(1) have p: "p = []" and t1: "t1 = Dir (es @ [(c, File bs)])"
      by (auto split: if_splits)
    from None have m: "map_of (es @ [(c, File bs)]) c = Some (File bs)"
      by (simp add: map_add_def)
    with p t1 show ?thesis by simp
  next
    case (Some ch)
    with "4.prems"(1) obtain ch1 where w1: "write_bytes ch p bs = Inr ch1"
      and t1: "t1 = Dir (dict_set es c ch1)" by (auto split: sum.splits)
    from "4.IH"[OF Some w1] obtain ch2 where "write_bytes ch1 p b = Inr ch2" by blast
    with t1 show ?thesis by (simp add: map_of_dict_set_same)
  qed
qed auto

lemma create_zip_archive_rerun:
  "create_zip_archive os (snd (create_zip_archive os t output_path root)) output_path root
     = create_zip_archive os t output_path root"
proof (cases "write_bytes t output_path []")
  case (Inl e)
  then show ?thesis by (simp add: create_zip_archive_def)
next
  case (Inr t1)
  obtain zf e where a: "add_items os t1 output_path root (items_to_include root) [] = (zf, e)"
    by (cases "add_items os t1 output_path root (items_to_include root) []")
  from write_bytes_again[OF Inr] obtain t2 where
    w: "write_bytes t1 output_path (zip_encode os zf) = Inr t2" by blast
  from Inr a w have s: "snd (create_zip_archive os t output_path root) = t2"
    by (simp add: create_zip_archive_def split: option.splits)
  from write_bytes_back[OF Inr w] have "write_bytes t2 output_path [] = Inr t1" .
  with Inr a w show ?thesis
    unfolding s by (simp add: create_zip_archive_def)
qed

lemma rglob_order_example:
  "fst (rglob quiet_platform (Dir [(''symbols'', Dir [(''a'', File [1]), (''b'', File [2])])])
          [''symbols'']) = [[''symbols'', ''a''], [''symbols'', ''b'']] \<and>
   fst (rglob (quiet_platform\<lparr>scan_rank := (\<lambda>p nm. if nm = ''b'' then 0 else 1)\<rparr>)
          (Dir [(''symbols'', Dir [(''a'', File [1]), (''b'', File [2])])])
          [''symbols'']) = [[''symbols'', ''b''], [''symbols'', ''a'']]"
  by (simp add: rglob_def is_dir_def dir_at_def walk_concat_def quiet_platform_def)

lemma create_zip_archive_two_files_example:
  "fst (create_zip_archive quiet_platform
     (Dir [(''symbols'', Dir [(''a'', File [1]), (''b'', File [2])])])
     [''out.zip''] []) = Inr [''out.zip'']"
  by (simp add: create_zip_archive_def items_to_include_def item_names_def is_file_def
      is_dir_def file_at_def dir_at_def rglob_def relative_to_def zf_write_def zip_add_def
      read_bytes_def walk_concat_def Let_def)

text \<open>
  Claim C3.  Two runs of \<open>create_zip_archive\<close> over the same tree give the same archive
  file, byte for byte, in whatever order the operating system enumerates the directories
  in either run (\<open>scan_rank\<close>; \<open>rglob\<close> yields in that order, and the listing is sorted
  before anything is added).  This holds for a second run on the file system that the
  first run left, which holds the first archive, and for two runs from the same file
  system: the file systems left are the same, with or without an exception, and when one
  run returns, the other returns the same path.  The time and mode of each member are
  those of the file, which is the same in both runs.
\<close>
theorem create_zip_archive_deterministic:
  "snd (create_zip_archive (os\<lparr>scan_rank := r\<rparr>)
          (snd (create_zip_archive os t output_path root)) output_path root)
     = snd (create_zip_archive os t output_path root) \<and>
   snd (create_zip_archive (os\<lparr>scan_rank := r\<rparr>) t output_path root)
     = snd (create_zip_archive os t output_path root) \<and>
   (\<forall>p. fst (create_zip_archive os t output_path root) = Inr p \<longrightarrow>
        create_zip_archive (os\<lparr>scan_rank := r\<rparr>)
            (snd (create_zip_archive os t output_path root)) output_path root
          = create_zip_archive os t output_path root \<and>
        create_zip_archive (os\<lparr>scan_rank := r\<rparr>) t output_path root
          = create_zip_archive os t output_path root)"
proof -
  let ?t' = "snd (create_zip_archive os t output_path root)"
  note a = create_zip_archive_rank[where os = os and r = r and t = t
      and output_path = output_path and root = root]
  note b = create_zip_archive_rank[where os = os and r = r and t = ?t'
      and output_path = output_path and root = root]
  note c = create_zip_archive_rerun[where os = os and t = t
      and output_path = output_path and root = root]
  from a b c show ?thesis by simp
qed

theorem create_zip_archive_deterministic_witness:
  "fst (rglob (quiet_platform\<lparr>scan_rank := (\<lambda>p nm. if nm = ''b'' then 0 else 1)\<rparr>)
          (Dir [(''symbols'', Dir [(''a'', File [1]), (''b'', File [2])])]) [''symbols''])
     \<noteq> fst (rglob quiet_platform
          (Dir [(''symbols'', Dir [(''a'', File [1]), (''b'', File [2])])]) [''symbols'']) \<and>
   fst (create_zip_archive quiet_platform
     (Dir [(''symbols'', Dir [(''a'', File [1]), (''b'', File [2])])]) [''out.zip''] [])
     = Inr [''out.zip''] \<and>
   create_zip_archive (quiet_platform\<lparr>scan_rank := (\<lambda>p nm. if nm = ''b'' then 0 else 1)\<rparr>)
     (snd (create_zip_archive quiet_platform
        (Dir [(''symbols'', Dir [(''a'', File [1]), (''b'', File [2])])]) [''out.zip''] []))
     [''out.zip''] []
   = create_zip_archive quiet_platform
     (Dir [(''symbols'', Dir [(''a'', File [1]), (''b'', File [2])])]) [''out.zip''] [] \<and>
   create_zip_archive (quiet_platform\<lparr>scan_rank := (\<lambda>p nm. if nm = ''b'' then 0 else 1)\<rparr>)
     (Dir [(''symbols'', Dir [(''a'', File [1]), (''b'', File [2])])]) [''out.zip''] []
   = create_zip_archive quiet_platform
     (Dir [(''symbols'', Dir [(''a'', File [1]), (''b'', File [2])])]) [''out.zip''] []"
proof -
  let ?t = "Dir [(''symbols'', Dir [(''a'', File [1]), (''b'', File [2])])]"
  let ?r = "\<lambda>(p::path) nm. if nm = ''b'' then 0 else (1::nat)"
  have o: "fst (rglob (quiet_platform\<lparr>scan_rank := ?r\<rparr>) ?t [''symbols''])
      \<noteq> fst (rglob quiet_platform ?t [''symbols''])"
    using rglob_order_example by simp
  have s: "fst (create_zip_archive quiet_platform ?t [''out.zip''] []) = Inr [''out.zip'']"
    by (rule create_zip_archive_two_files_example)
  from create_zip_archive_deterministic
    [where os = quiet_platform and r = ?r and t = ?t
       and output_path = "[''out.zip'']" and root = "[]"] s
  have "create_zip_archive (quiet_platform\<lparr>scan_rank := ?r\<rparr>)
          (snd (create_zip_archive quiet_platform ?t [''out.zip''] [])) [''out.zip''] []
        = create_zip_archive quiet_platform ?t [''out.zip''] [] \<and>
      create_zip_archive (quiet_platform\<lparr>scan_rank := ?r\<rparr>) ?t [''out.zip''] []
        = create_zip_archive quiet_platform ?t [''out.zip''] []"
    by blast
  with o s show ?thesis by blast
qed

lemma write_bytes_written: "write_bytes t p bs = Inr t' \<Longrightarrow> resolve t' p = Inr (File bs)"
proof (induction t p bs arbitrary: t' rule: write_bytes.induct)
  case (4 es c p bs)
  show ?case
  proof (cases "map_of es c")
    case None
    with "4.prems" show ?thesis by (auto simp: map_add_def split: if_splits)
  next
    case (Some ch)
    with "4.prems" obtain ch' where w: "write_bytes ch p bs = Inr ch'"
      and t': "t' = Dir (dict_set es c ch')" by (auto split: sum.splits)
    from "4.IH"[OF Some w] t' show ?thesis by (simp add: map_of_dict_set_same)
  qed
qed simp_all

lemma zf_write_Inr:
  "zf_write os t out zf p nm = Inr zf' \<Longrightarrow> file_at t p \<Longrightarrow>
   \<exists>m. zf' = zf @ [m] \<and> arcname m = nm \<and> (p = out \<or> read_bytes t p = Inr (zm_data m)) \<and>
     zm_mtime m = st_mtime os p \<and> zm_mode m = st_mode os p"
  by (auto simp: zf_write_def zip_add_def file_at_def read_bytes_def
      split: option.splits sum.splits node.splits)

lemma add_dir_files_ok:
  assumes "nm \<in> set item_names" and "dir_at t (root @ [nm])"
    and "\<forall>x\<in>set xs. \<exists>q. x = root @ nm # q"
    and "\<forall>m\<in>set zf. member_ok os t out root m"
  shows "\<forall>m\<in>set (fst (add_dir_files os t out root xs zf)). member_ok os t out root m"
  using assms(3,4)
proof (induction xs arbitrary: zf)
  case Nil
  then show ?case by simp
next
  case (Cons x xs)
  from Cons.prems(1) obtain q where x: "x = root @ nm # q" by auto
  show ?case
  proof (cases "is_file os t x")
    case (Inl e)
    with Cons.prems show ?thesis by simp
  next
    case (Inr b)
    show ?thesis
    proof (cases b)
      case False
      with Inr Cons show ?thesis by simp
    next
      case True
      have rel: "relative_to x root = Inr (nm # q)" by (simp add: relative_to_def x)
      show ?thesis
      proof (cases "zf_write os t out zf x (as_posix (nm # q))")
        case (Inl e)
        with Inr True rel Cons.prems show ?thesis by simp
      next
        case w: (Inr zf')
        from Inr True have fx: "file_at t x" by (simp add: is_file_True)
        from zf_write_Inr[OF w fx] obtain m where zf': "zf' = zf @ [m]"
          and m: "arcname m = as_posix (nm # q)" "x = out \<or> read_bytes t x = Inr (zm_data m)"
            "zm_mtime m = st_mtime os x" "zm_mode m = st_mode os x" by blast
        have "member_ok os t out root m"
          unfolding member_ok_def using m assms(1,2) x fx
          by (intro exI[of _ "nm # q"]) simp
        with Cons.prems(2) zf' have "\<forall>m\<in>set zf'. member_ok os t out root m" by simp
        from Cons.IH[OF _ this] Cons.prems(1) Inr True rel w show ?thesis by simp
      qed
    qed
  qed
qed

lemma add_items_ok:
  assumes "\<forall>i\<in>set items. \<exists>nm\<in>set item_names. i = root @ [nm]"
    and "\<forall>m\<in>set zf. member_ok os t out root m"
  shows "\<forall>m\<in>set (fst (add_items os t out root items zf)). member_ok os t out root m"
  using assms
proof (induction items arbitrary: zf)
  case Nil
  then show ?case by simp
next
  case (Cons item items)
  from Cons.prems(1) obtain nm where nm: "nm \<in> set item_names" and item: "item = root @ [nm]"
    by auto
  from Cons.prems(1) have rest: "\<forall>i\<in>set items. \<exists>nm\<in>set item_names. i = root @ [nm]" by simp
  show ?case
  proof (cases "is_file os t item")
    case (Inl e)
    with Cons.prems show ?thesis by simp
  next
    case f: (Inr isf)
    show ?thesis
    proof (cases isf)
      case True
      have rel: "relative_to item root = Inr [nm]" by (simp add: relative_to_def item)
      show ?thesis
      proof (cases "zf_write os t out zf item (as_posix [nm])")
        case (Inl e)
        with f True rel Cons.prems show ?thesis by simp
      next
        case w: (Inr zf')
        from f True have fi: "file_at t item" by (simp add: is_file_True)
        from zf_write_Inr[OF w fi] obtain m where zf': "zf' = zf @ [m]"
          and m: "arcname m = as_posix [nm]" "item = out \<or> read_bytes t item = Inr (zm_data m)"
            "zm_mtime m = st_mtime os item" "zm_mode m = st_mode os item" by blast
        from fi have "member_ok os t out root m"
          unfolding member_ok_def using m nm item
          by (intro exI[of _ "[nm]"]) simp
        with Cons.prems(2) zf' have "\<forall>m\<in>set zf'. member_ok os t out root m" by simp
        from Cons.IH[OF rest this] f True rel w show ?thesis by simp
      qed
    next
      case nf: False
      show ?thesis
      proof (cases "is_dir os t item")
        case (Inl e)
        with f nf Cons.prems show ?thesis by simp
      next
        case d: (Inr isd)
        show ?thesis
        proof (cases isd)
          case False
          with f nf d Cons.IH[OF rest Cons.prems(2)] show ?thesis by simp
        next
          case True
          with d item have dir: "dir_at t (root @ [nm])" by (simp add: is_dir_True)
          show ?thesis
          proof (cases "snd (rglob os t item)")
            case (Some e)
            with f nf d True Cons.prems show ?thesis by simp
          next
            case None
            have below: "\<forall>x\<in>set (sort (fst (rglob os t item))). \<exists>q. x = root @ nm # q"
              using rglob_below[of _ os t item] item by fastforce
            obtain zf' e' where a: "add_dir_files os t out root (sort (fst (rglob os t item))) zf = (zf', e')"
              by (cases "add_dir_files os t out root (sort (fst (rglob os t item))) zf")
            from add_dir_files_ok[OF nm dir below Cons.prems(2)] a
            have ok': "\<forall>m\<in>set zf'. member_ok os t out root m" by simp
            show ?thesis
            proof (cases e')
              case (Some e)
              with a None f nf d True ok' show ?thesis by simp
            next
              case ne: None
              with a None f nf d True Cons.IH[OF rest ok'] show ?thesis by simp
            qed
          qed
        qed
      qed
    qed
  qed
qed

lemma add_items_skip:
  "add_items os t out root
     (filter (\<lambda>i. \<not> (is_file os t i = Inr False \<and> is_dir os t i = Inr False)) items) zf
   = add_items os t out root items zf"
proof -
  define skipped where "skipped = (\<lambda>i. is_file os t i = Inr False \<and> is_dir os t i = Inr False)"
  have "add_items os t out root (filter (\<lambda>i. \<not> skipped i) items) zf = add_items os t out root items zf"
  proof (induction items arbitrary: zf)
    case Nil
    then show ?case by simp
  next
    case (Cons item items)
    show ?case
    proof (cases "skipped item")
      case True
      then have "is_file os t item = Inr False" "is_dir os t item = Inr False"
        by (simp_all add: skipped_def)
      with True Cons show ?thesis by simp
    next
      case False
      with Cons show ?thesis
        by (simp split: sum.splits bool.splits option.splits prod.splits)
    qed
  qed
  then show ?thesis by (simp add: skipped_def)
qed

lemma as_posix_Cons: "as_posix (c # q) = (if q = [] then c else c @ ''/'' @ as_posix q)"
  by (cases q) simp_all

lemma item_names_hd:
  assumes "a \<in> set item_names" and "b \<in> set item_names" and "a \<noteq> b"
  shows "a \<noteq> [] \<and> b \<noteq> [] \<and> hd a \<noteq> hd b"
proof -
  have "map hd item_names = [CHR ''m'', CHR ''r'', CHR ''s'', CHR ''f'', CHR ''3'']"
    "[] \<notin> set item_names" "length item_names = 5"
    by (simp_all add: item_names_def)
  moreover from this(1) have "distinct (map hd item_names)" by simp
  ultimately show ?thesis
    using assms by (metis distinct_map inj_on_def)
qed

lemma hd_as_posix: "b \<noteq> [] \<Longrightarrow> hd (as_posix (b # q)) = hd b"
  by (simp add: as_posix_Cons)

lemma item_name_clash:
  assumes "a \<in> set item_names" and "b \<in> set item_names" and "a \<noteq> b"
  shows "as_posix (b # q) \<noteq> a \<and> \<not> prefix (a @ ''/'') (as_posix (b # q))"
proof -
  from item_names_hd[OF assms] have a: "a \<noteq> []" and b: "b \<noteq> []" and h: "hd a \<noteq> hd b"
    by simp_all
  have "as_posix (b # q) \<noteq> a"
    using hd_as_posix[OF b, of q] h by auto
  moreover have "\<not> prefix (a @ ''/'') (as_posix (b # q))"
  proof
    assume "prefix (a @ ''/'') (as_posix (b # q))"
    then obtain z where "as_posix (b # q) = (a @ ''/'') @ z" by (auto simp: prefix_def)
    then have "hd (as_posix (b # q)) = hd a" using a by simp
    with hd_as_posix[OF b, of q] h show False by simp
  qed
  ultimately show ?thesis by simp
qed

lemma create_zip_archive_example:
  "create_zip_archive quiet_platform
     (Dir [(''metadata.json'', File [1]), (''symbols'', Dir [(''x.kicad_sym'', File [2, 3])])])
     [''out.zip''] []
   = (Inr [''out.zip''],
      Dir [(''metadata.json'', File [1]), (''symbols'', Dir [(''x.kicad_sym'', File [2, 3])]),
           (''out.zip'', File [1, 2, 3])])"
  by (simp add: create_zip_archive_def items_to_include_def item_names_def is_file_def
      is_dir_def file_at_def dir_at_def rglob_def relative_to_def zf_write_def zip_add_def read_bytes_def
      walk_concat_def Let_def)

text \<open>
  Claim C6.  When \<open>create_zip_archive\<close> returns, it returns the output path, and the file
  there holds the archive of the members that the loop has written.  Each of them is
  named by the components, joined by \<open>/\<close>, of a non-empty path relative to the packaging
  root; the path starts with one of the five listed names, and a regular file is at that
  path (in the file system as the loop sees it, with the archive file created).  A
  listed name at which there is neither a regular file nor a directory gives no member
  named by it or below it.  Such an input is passed over without an exception: the loop
  does for the list of inputs what it does for the list without them, for the members
  and for the exception alike.
\<close>
theorem create_zip_archive_member_names:
  "(\<forall>p t'. create_zip_archive os t output_path root = (Inr p, t') \<longrightarrow>
      p = output_path \<and>
      (\<exists>t1. write_bytes t output_path [] = Inr t1 \<and>
         (let ms = fst (add_items os t1 output_path root (items_to_include root) []) in
          read_bytes t' output_path = Inr (zip_encode os ms) \<and>
          (\<forall>m\<in>set ms. \<exists>rel. rel \<noteq> [] \<and> hd rel \<in> set item_names \<and>
              arcname m = as_posix rel \<and> file_at t1 (root @ rel)) \<and>
          (\<forall>item\<in>set item_names.
              \<not> file_at t1 (root @ [item]) \<and> \<not> dir_at t1 (root @ [item]) \<longrightarrow>
              (\<forall>m\<in>set ms. arcname m \<noteq> item \<and> \<not> prefix (item @ ''/'') (arcname m))))))
   \<and> (\<forall>u out items zf.
         add_items os u out root
           (filter (\<lambda>i. \<not> (is_file os u i = Inr False \<and> is_dir os u i = Inr False)) items) zf
         = add_items os u out root items zf)"
proof (rule conjI, rule allI, rule allI, rule impI)
  fix p t'
  assume run: "create_zip_archive os t output_path root = (Inr p, t')"
  then obtain t1 where t1: "write_bytes t output_path [] = Inr t1"
    by (auto simp: create_zip_archive_def split: sum.splits)
  define ms where "ms = fst (add_items os t1 output_path root (items_to_include root) [])"
  obtain err where ai: "add_items os t1 output_path root (items_to_include root) [] = (ms, err)"
    unfolding ms_def by (cases "add_items os t1 output_path root (items_to_include root) []") simp
  from run t1 ai obtain t2 where t2: "write_bytes t1 output_path (zip_encode os ms) = Inr t2"
    and res: "p = output_path" "t' = t2"
    by (auto simp: create_zip_archive_def split: sum.splits option.splits)
  from write_bytes_written[OF t2] res have rd: "read_bytes t' output_path = Inr (zip_encode os ms)"
    by (simp add: read_bytes_file)
  have "\<forall>i\<in>set (items_to_include root). \<exists>nm\<in>set item_names. i = root @ [nm]"
    by (auto simp: items_to_include_def)
  from add_items_ok[OF this, of "[]" os t1 output_path] ai
  have ok: "\<forall>m\<in>set ms. member_ok os t1 output_path root m" by simp
  have names: "\<forall>m\<in>set ms. \<exists>rel. rel \<noteq> [] \<and> hd rel \<in> set item_names \<and>
             arcname m = as_posix rel \<and> file_at t1 (root @ rel)"
    using ok unfolding member_ok_def by blast
  have omitted: "\<forall>item\<in>set item_names.
             \<not> file_at t1 (root @ [item]) \<and> \<not> dir_at t1 (root @ [item]) \<longrightarrow>
             (\<forall>m\<in>set ms. arcname m \<noteq> item \<and> \<not> prefix (item @ ''/'') (arcname m))"
  proof (intro ballI impI)
    fix item m
    assume item: "item \<in> set item_names"
      and absent: "\<not> file_at t1 (root @ [item]) \<and> \<not> dir_at t1 (root @ [item])"
      and m: "m \<in> set ms"
    from ok m obtain rel where rel: "rel \<noteq> []" "hd rel \<in> set item_names"
      "file_at t1 (root @ [hd rel]) \<or> dir_at t1 (root @ [hd rel])" "arcname m = as_posix rel"
      unfolding member_ok_def by blast
    from rel(1) obtain nm q where r: "rel = nm # q" by (cases rel) auto
    with rel absent have "item \<noteq> nm" by auto
    from item_name_clash[OF item _ this, of q] rel r
    show "arcname m \<noteq> item \<and> \<not> prefix (item @ ''/'') (arcname m)" by simp
  qed
  have "let ms = fst (add_items os t1 output_path root (items_to_include root) []) in
          read_bytes t' output_path = Inr (zip_encode os ms) \<and>
          (\<forall>m\<in>set ms. \<exists>rel. rel \<noteq> [] \<and> hd rel \<in> set item_names \<and>
              arcname m = as_posix rel \<and> file_at t1 (root @ rel)) \<and>
          (\<forall>item\<in>set item_names.
              \<not> file_at t1 (root @ [item]) \<and> \<not> dir_at t1 (root @ [item]) \<longrightarrow>
              (\<forall>m\<in>set ms. arcname m \<noteq> item \<and> \<not> prefix (item @ ''/'') (arcname m)))"
    unfolding Let_def ms_def[symmetric] using rd names omitted by (intro conjI)
  with t1 res(1)
  show "p = output_path \<and>
      (\<exists>t1. write_bytes t output_path [] = Inr t1 \<and>
         (let ms = fst (add_items os t1 output_path root (items_to_include root) []) in
          read_bytes t' output_path = Inr (zip_encode os ms) \<and>
          (\<forall>m\<in>set ms. \<exists>rel. rel \<noteq> [] \<and> hd rel \<in> set item_names \<and>
              arcname m = as_posix rel \<and> file_at t1 (root @ rel)) \<and>
          (\<forall>item\<in>set item_names.
              \<not> file_at t1 (root @ [item]) \<and> \<not> dir_at t1 (root @ [item]) \<longrightarrow>
              (\<forall>m\<in>set ms. arcname m \<noteq> item \<and> \<not> prefix (item @ ''/'') (arcname m)))))"
    by blast
next
  show "\<forall>u out items zf.
         add_items os u out root
           (filter (\<lambda>i. \<not> (is_file os u i = Inr False \<and> is_dir os u i = Inr False)) items) zf
         = add_items os u out root items zf"
    by (intro allI) (rule add_items_skip)
qed

theorem create_zip_archive_member_names_witness:
  "\<exists>t'. create_zip_archive quiet_platform
       (Dir [(''metadata.json'', File [1]), (''symbols'', Dir [(''x.kicad_sym'', File [2, 3])])])
       [''out.zip''] [] = (Inr [''out.zip''], t') \<and>
     read_bytes t' [''out.zip''] = Inr [1, 2, 3] \<and>
     map arcname (fst (add_items quiet_platform
       (Dir [(''metadata.json'', File [1]), (''symbols'', Dir [(''x.kicad_sym'', File [2, 3])]),
             (''out.zip'', File [])])
       [''out.zip''] [] (items_to_include []) [])) = [''metadata.json'', ''symbols/x.kicad_sym''] \<and>
     (\<forall>m\<in>set (fst (add_items quiet_platform
       (Dir [(''metadata.json'', File [1]), (''symbols'', Dir [(''x.kicad_sym'', File [2, 3])]),
             (''out.zip'', File [])])
       [''out.zip''] [] (items_to_include []) [])).
        arcname m \<noteq> ''footprints'' \<and> \<not> prefix ''footprints/'' (arcname m))"
proof -
  let ?t = "Dir [(''metadata.json'', File [1]), (''symbols'', Dir [(''x.kicad_sym'', File [2, 3])])]"
  let ?t1 = "Dir [(''metadata.json'', File [1]), (''symbols'', Dir [(''x.kicad_sym'', File [2, 3])]),
                  (''out.zip'', File [])]"
  let ?ms = "fst (add_items quiet_platform ?t1 [''out.zip''] [] (items_to_include []) [])"
  obtain t' where run: "create_zip_archive quiet_platform ?t [''out.zip''] [] = (Inr [''out.zip''], t')"
    and rd: "read_bytes t' [''out.zip''] = Inr [1, 2, 3]"
    using create_zip_archive_example by (simp add: read_bytes_def)
  have w: "write_bytes ?t [''out.zip''] [] = Inr ?t1" by simp
  have nms: "map arcname ?ms = [''metadata.json'', ''symbols/x.kicad_sym'']"
    by (simp add: items_to_include_def item_names_def is_file_def
      is_dir_def file_at_def dir_at_def rglob_def relative_to_def zf_write_def zip_add_def
      walk_concat_def)
  have i: "''footprints'' \<in> set item_names" by (simp add: item_names_def)
  have n: "\<not> file_at ?t1 ([] @ [''footprints'']) \<and> \<not> dir_at ?t1 ([] @ [''footprints''])"
    by (simp add: file_at_def dir_at_def)
  from create_zip_archive_member_names[of quiet_platform ?t "[''out.zip'']" "[]"] run w
  have "\<forall>item\<in>set item_names.
         \<not> file_at ?t1 ([] @ [item]) \<and> \<not> dir_at ?t1 ([] @ [item]) \<longrightarrow>
         (\<forall>m\<in>set ?ms. arcname m \<noteq> item \<and> \<not> prefix (item @ ''/'') (arcname m))"
    by (auto simp: Let_def)
  with i n have "\<forall>m\<in>set ?ms. arcname m \<noteq> ''footprints'' \<and> \<not> prefix ''footprints/'' (arcname m)"
    by fastforce
  with run rd nms show ?thesis by (intro exI[of _ t'] conjI)
qed

text \<open>
  The function does not always return: \<open>ZipFile.write\<close> refuses a file whose time is
  before 1980.
\<close>

lemma create_zip_archive_old_file_example:
  "fst (create_zip_archive (quiet_platform\<lparr>st_mtime := (\<lambda>p. 0)\<rparr>)
     (Dir [(''metadata.json'', File [1])]) [''out.zip''] []) = Inl ValueError"
  by (simp add: create_zip_archive_def items_to_include_def item_names_def is_file_def
      is_dir_def file_at_def dir_at_def rglob_def relative_to_def zf_write_def zip_add_def read_bytes_def
      walk_concat_def Let_def quiet_platform_def)

end
